theory Spec2Isabelle
  imports Main
begin

section \<open>Address book: fields, records, the book and the weekly birthday report\<close>

text \<open>
  A shallow embedding of \<^verbatim>\<open>adressbook_new.py\<close>. Python exceptions are values of
  \<open>error\<close>; a method that mutates its object returns the object after the call next to
  its result, so that a call that raises half-way still shows what it changed.

  A Python \<^verbatim>\<open>str\<close> is modelled as a \<open>string\<close>: each \<open>char\<close> stands for the code point
  with the same number, so the model covers the strings whose code points are below 256.
  In that range the regular-expression class \<^verbatim>\<open>\d\<close> matches exactly the characters
  \<^verbatim>\<open>0\<close> to \<^verbatim>\<open>9\<close>.
\<close>

datatype error = ValueError | KeyError | OverflowError

subsection \<open>Field, Name, Phone, Birthday\<close>

text \<open>
  \<^verbatim>\<open>Field\<close> holds one attribute, \<^verbatim>\<open>value\<close>, and \<^verbatim>\<open>str(field)\<close> is \<^verbatim>\<open>str(field.value)\<close>.
  \<^verbatim>\<open>Name\<close>, \<^verbatim>\<open>Phone\<close> and \<^verbatim>\<open>Birthday\<close> add no attribute, only a check in the constructor.
\<close>

datatype Field = Field (value_of: string)

definition is_digit :: "char \<Rightarrow> bool" where
  "is_digit c = (c \<in> set ''0123456789'')"

text \<open>
  \<^verbatim>\<open>re.match(r'^\d{10}$', value)\<close>: ten digits from the start of the string, then \<^verbatim>\<open>$\<close>,
  which (without \<^verbatim>\<open>re.MULTILINE\<close>) holds at the end of the string and also just before a
  newline that is the last character of the string.
\<close>

definition re_match_phone :: "string \<Rightarrow> bool" where
  "re_match_phone v =
     (length (take 10 v) = 10 \<and> list_all is_digit (take 10 v) \<and>
      (drop 10 v = [] \<or> drop 10 v = [CHR 0x0A]))"

definition Phone_init :: "string \<Rightarrow> error + Field" where
  "Phone_init v = (if \<not> re_match_phone v then Inl ValueError else Inr (Field v))"

subsection \<open>Calendar dates of the datetime module\<close>

record date =
  year :: nat
  month :: nat
  day :: nat

definition is_leap :: "nat \<Rightarrow> bool" where
  "is_leap y = (y mod 4 = 0 \<and> (y mod 100 \<noteq> 0 \<or> y mod 400 = 0))"

definition DAYS_IN_MONTH :: "nat list" where
  "DAYS_IN_MONTH = [0, 31, 28, 31, 30, 31, 30, 31, 31, 30, 31, 30, 31]"

definition DAYS_BEFORE_MONTH :: "nat list" where
  "DAYS_BEFORE_MONTH = [0, 0, 31, 59, 90, 120, 151, 181, 212, 243, 273, 304, 334]"

text \<open>
  The helpers of the module, on the years 1 to 9999 that a date can have (for such a year
  no subtraction below goes under zero).
\<close>

definition days_before_year :: "nat \<Rightarrow> nat" where
  "days_before_year y = (y - 1) * 365 + (y - 1) div 4 - (y - 1) div 100 + (y - 1) div 400"

definition days_in_month :: "nat \<Rightarrow> nat \<Rightarrow> nat" where
  "days_in_month y m = (if m = 2 \<and> is_leap y then 29 else DAYS_IN_MONTH ! m)"

definition days_before_month :: "nat \<Rightarrow> nat \<Rightarrow> nat" where
  "days_before_month y m = DAYS_BEFORE_MONTH ! m + (if m > 2 \<and> is_leap y then 1 else 0)"

definition ymd2ord :: "nat \<Rightarrow> nat \<Rightarrow> nat \<Rightarrow> nat" where
  "ymd2ord y m d = days_before_year y + days_before_month y m + d"

definition MAXORDINAL :: nat where
  "MAXORDINAL = 3652059"

text \<open>\<^verbatim>\<open>_check_date_fields\<close>: the test every constructed date has passed.\<close>

definition check_date_fields :: "nat \<Rightarrow> nat \<Rightarrow> nat \<Rightarrow> bool" where
  "check_date_fields y m d =
     (1 \<le> y \<and> y \<le> 9999 \<and> 1 \<le> m \<and> m \<le> 12 \<and> 1 \<le> d \<and> d \<le> days_in_month y m)"

definition date_new :: "nat \<Rightarrow> nat \<Rightarrow> nat \<Rightarrow> error + date" where
  "date_new y m d =
     (if check_date_fields y m d then Inr \<lparr>year = y, month = m, day = d\<rparr> else Inl ValueError)"

definition toordinal :: "date \<Rightarrow> nat" where
  "toordinal dt = ymd2ord (year dt) (month dt) (day dt)"

text \<open>\<^verbatim>\<open>date.replace(year=y)\<close> builds a new date and so checks the fields again.\<close>

definition replace_year :: "date \<Rightarrow> nat \<Rightarrow> error + date" where
  "replace_year dt y = date_new y (month dt) (day dt)"

text \<open>Dates are ordered as the tuples (year, month, day).\<close>

definition date_less :: "date \<Rightarrow> date \<Rightarrow> bool" where
  "date_less a b =
     (year a < year b \<or> (year a = year b \<and>
        (month a < month b \<or> (month a = month b \<and> day a < day b))))"

text \<open>\<^verbatim>\<open>(a - b).days\<close>\<close>

definition sub_days :: "date \<Rightarrow> date \<Rightarrow> int" where
  "sub_days a b = int (toordinal a) - int (toordinal b)"

text \<open>\<^verbatim>\<open>_ord2ymd\<close>, the inverse of \<^verbatim>\<open>_ymd2ord\<close>, as the library computes it.\<close>

definition ord2ymd :: "nat \<Rightarrow> date" where
  "ord2ymd n0 =
     (let n = n0 - 1;
          n400 = n div 146097; n = n mod 146097;
          y = n400 * 400 + 1;
          n100 = n div 36524; n = n mod 36524;
          n4 = n div 1461; n = n mod 1461;
          n1 = n div 365; n = n mod 365;
          y = y + n100 * 100 + n4 * 4 + n1
      in if n1 = 4 \<or> n100 = 4 then \<lparr>year = y - 1, month = 12, day = 31\<rparr>
         else
           let leapyear = (n1 = 3 \<and> (n4 \<noteq> 24 \<or> n100 = 3));
               m = (n + 50) div 32;
               preceding = DAYS_BEFORE_MONTH ! m + (if m > 2 \<and> leapyear then 1 else 0)
           in if preceding > n
              then let m = m - 1;
                       preceding = preceding -
                         (DAYS_IN_MONTH ! m + (if m = 2 \<and> leapyear then 1 else 0))
                   in \<lparr>year = y, month = m, day = n - preceding + 1\<rparr>
              else \<lparr>year = y, month = m, day = n - preceding + 1\<rparr>)"

text \<open>\<^verbatim>\<open>date + timedelta(days=k)\<close>\<close>

definition add_days :: "date \<Rightarrow> int \<Rightarrow> error + date" where
  "add_days dt k =
     (let ordinal = int (toordinal dt) + k
      in if 0 < ordinal \<and> ordinal \<le> int MAXORDINAL then Inr (ord2ymd (nat ordinal))
         else Inl OverflowError)"

datatype weekday = Monday | Tuesday | Wednesday | Thursday | Friday | Saturday | Sunday

definition day_name :: "nat \<Rightarrow> weekday" where
  "day_name i = [Monday, Tuesday, Wednesday, Thursday, Friday, Saturday, Sunday] ! i"

text \<open>\<^verbatim>\<open>d.strftime("%A")\<close>: the name of \<^verbatim>\<open>d.weekday()\<close>, which is \<^verbatim>\<open>(d.toordinal() + 6) % 7\<close>.\<close>

definition strftime_A :: "date \<Rightarrow> weekday" where
  "strftime_A dt = day_name ((toordinal dt + 6) mod 7)"

subsection \<open>strptime with the format %d-%m-%Y\<close>

text \<open>
  \<^verbatim>\<open>datetime.strptime(value, "%d-%m-%Y")\<close> compiles the format to the regular expression
  \<^verbatim>\<open>(?P<d>3[0-1]|[1-2]\d|0[1-9]|[1-9]| [1-9])-(?P<m>1[0-2]|0[1-9]|[1-9])-(?P<Y>\d\d\d\d)\<close>,
  matches it at the start of the string, raises ValueError when there is no match or when
  the match ends before the string does, converts the three groups with \<^verbatim>\<open>int\<close> and builds
  the date, which raises ValueError for a day, month or year out of range.

  A matcher returns every way to match a prefix, as (matched text, rest), in the order
  in which the backtracking engine tries them; the engine's answer is the first one.
\<close>

type_synonym matcher = "string \<Rightarrow> (string \<times> string) list"

definition cls :: "string \<Rightarrow> matcher" where
  "cls cs s = (case s of [] \<Rightarrow> [] | c # r \<Rightarrow> if c \<in> set cs then [([c], r)] else [])"

definition seq :: "matcher \<Rightarrow> matcher \<Rightarrow> matcher" where
  "seq p q s = concat (map (\<lambda>(a, r). map (\<lambda>(b, r'). (a @ b, r')) (q r)) (p s))"

definition alt :: "matcher \<Rightarrow> matcher \<Rightarrow> matcher" where
  "alt p q s = p s @ q s"

definition re_d :: matcher where
  "re_d = alt (seq (cls ''3'') (cls ''01''))
         (alt (seq (cls ''12'') (cls ''0123456789''))
         (alt (seq (cls ''0'') (cls ''123456789''))
         (alt (cls ''123456789'')
              (seq (cls '' '') (cls ''123456789'')))))"

definition re_m :: matcher where
  "re_m = alt (seq (cls ''1'') (cls ''012''))
         (alt (seq (cls ''0'') (cls ''123456789''))
              (cls ''123456789''))"

definition re_Y :: matcher where
  "re_Y = seq (cls ''0123456789'') (seq (cls ''0123456789'')
         (seq (cls ''0123456789'') (cls ''0123456789'')))"

text \<open>A group followed by the hyphen of the format: the text of the group and the rest.\<close>

definition group_dash :: "matcher \<Rightarrow> matcher" where
  "group_dash p s = concat (map (\<lambda>(a, r). map (\<lambda>(_, r'). (a, r')) (cls ''-'' r)) (p s))"

text \<open>All matches of the whole expression: the three groups and the unmatched rest.\<close>

definition format_regex :: "string \<Rightarrow> (string \<times> string \<times> string \<times> string) list" where
  "format_regex s =
     concat (map (\<lambda>(d, r1).
       concat (map (\<lambda>(m, r2).
         map (\<lambda>(y, r3). (d, m, y, r3)) (re_Y r2))
       (group_dash re_m r1)))
     (group_dash re_d s))"

text \<open>
  \<^verbatim>\<open>int(text)\<close> on a group of the expression: the group is made of digits, after one space
  at most, and \<^verbatim>\<open>int\<close> skips the space.
\<close>

definition py_int :: "string \<Rightarrow> nat" where
  "py_int s = foldl (\<lambda>a c. 10 * a + (of_char c - 48)) 0 (filter (\<lambda>c. c \<noteq> CHR '' '') s)"

definition strptime :: "string \<Rightarrow> error + date" where
  "strptime s =
     (case format_regex s of
        [] \<Rightarrow> Inl ValueError
      | (d, m, y, rest) # _ \<Rightarrow>
          if rest \<noteq> [] then Inl ValueError
          else date_new (py_int y) (py_int m) (py_int d))"

definition Birthday_init :: "string \<Rightarrow> error + Field" where
  "Birthday_init v = (case strptime v of Inl _ \<Rightarrow> Inl ValueError | Inr _ \<Rightarrow> Inr (Field v))"

subsection \<open>Record\<close>

record Record =
  name :: Field
  phones :: "Field list"
  birthday :: "Field option"

text \<open>
  \<^verbatim>\<open>Record(name, birthday=None)\<close>: the argument is None or a string, and the empty string
  is falsy, so it is taken as no birthday.
\<close>

definition Record_init :: "string \<Rightarrow> string option \<Rightarrow> error + Record" where
  "Record_init nm bd =
     (case bd of
        None \<Rightarrow> Inr \<lparr>name = Field nm, phones = [], birthday = None\<rparr>
      | Some b \<Rightarrow>
          if b = [] then Inr \<lparr>name = Field nm, phones = [], birthday = None\<rparr>
          else (case Birthday_init b of
                  Inl e \<Rightarrow> Inl e
                | Inr f \<Rightarrow> Inr \<lparr>name = Field nm, phones = [], birthday = Some f\<rparr>))"

text \<open>A method returns its result (or the exception) and the record after the call.\<close>

definition add_phone :: "Record \<Rightarrow> string \<Rightarrow> (error + unit) \<times> Record" where
  "add_phone r phone =
     (case Phone_init phone of
        Inl e \<Rightarrow> (Inl e, r)
      | Inr p \<Rightarrow> (Inr (), r\<lparr>phones := phones r @ [p]\<rparr>))"

definition remove_phone :: "Record \<Rightarrow> string \<Rightarrow> Record" where
  "remove_phone r phone = r\<lparr>phones := filter (\<lambda>p. value_of p \<noteq> phone) (phones r)\<rparr>"

definition edit_phone :: "Record \<Rightarrow> string \<Rightarrow> string \<Rightarrow> (error + unit) \<times> Record" where
  "edit_phone r old_phone new_phone = add_phone (remove_phone r old_phone) new_phone"

definition find_phone :: "Record \<Rightarrow> string \<Rightarrow> Field option" where
  "find_phone r phone = find (\<lambda>p. value_of p = phone) (phones r)"

text \<open>
  \<^verbatim>\<open>add_birthday\<close> takes any object and raises ValueError unless it is a Birthday; the
  argument is either a raw string or a Birthday built by its constructor.
\<close>

datatype birthday_arg = Raw string | BirthdayObject Field

definition add_birthday :: "Record \<Rightarrow> birthday_arg \<Rightarrow> (error + unit) \<times> Record" where
  "add_birthday r b =
     (case b of
        Raw _ \<Rightarrow> (Inl ValueError, r)
      | BirthdayObject f \<Rightarrow> (Inr (), r\<lparr>birthday := Some f\<rparr>))"

subsection \<open>AddressBook\<close>

text \<open>
  The dictionary \<^verbatim>\<open>self.data\<close> keeps its keys in insertion order and holds references to
  Record objects, which callers obtain with \<^verbatim>\<open>find\<close> and mutate in place. The state is
  therefore the store of Record objects (an address is an index of \<open>objs\<close>) and the
  dictionary from names to addresses, as an association list in insertion order.
\<close>

record state =
  objs :: "Record list"
  data :: "(string \<times> nat) list"

text \<open>\<^verbatim>\<open>d[k] = v\<close>: an existing key keeps its place, a new key goes last.\<close>

fun dict_setitem :: "'k \<Rightarrow> 'v \<Rightarrow> ('k \<times> 'v) list \<Rightarrow> ('k \<times> 'v) list" where
  "dict_setitem k v [] = [(k, v)]"
| "dict_setitem k v ((k', v') # d) =
     (if k' = k then (k, v) # d else (k', v') # dict_setitem k v d)"

fun dict_get :: "('k \<times> 'v) list \<Rightarrow> 'k \<Rightarrow> 'v option" where
  "dict_get [] k = None"
| "dict_get ((k', v') # d) k = (if k' = k then Some v' else dict_get d k)"

definition dict_contains :: "('k \<times> 'v) list \<Rightarrow> 'k \<Rightarrow> bool" where
  "dict_contains d k = (dict_get d k \<noteq> None)"

fun dict_delitem :: "'k \<Rightarrow> ('k \<times> 'v) list \<Rightarrow> ('k \<times> 'v) list" where
  "dict_delitem k [] = []"
| "dict_delitem k ((k', v') # d) = (if k' = k then d else (k', v') # dict_delitem k d)"

definition AddressBook_init :: state where
  "AddressBook_init = \<lparr>objs = [], data = []\<rparr>"

text \<open>
  \<^verbatim>\<open>add_record\<close>: the new Record is stored only after both constructors have returned;
  when one raises, the object under construction is dropped and the state is as before.
\<close>

definition add_record :: "state \<Rightarrow> string \<Rightarrow> string \<Rightarrow> string option \<Rightarrow> (error + unit) \<times> state" where
  "add_record s nm phone bd =
     (case Record_init nm bd of
        Inl e \<Rightarrow> (Inl e, s)
      | Inr r \<Rightarrow>
          (case add_phone r phone of
             (Inl e, _) \<Rightarrow> (Inl e, s)
           | (Inr _, r') \<Rightarrow>
               (Inr (), \<lparr>objs = objs s @ [r'],
                         data = dict_setitem nm (length (objs s)) (data s)\<rparr>)))"

definition find_record :: "state \<Rightarrow> string \<Rightarrow> nat option" where
  "find_record s nm = dict_get (data s) nm"

definition update_record :: "state \<Rightarrow> string \<Rightarrow> nat \<Rightarrow> (error + unit) \<times> state" where
  "update_record s nm new_record =
     (if dict_contains (data s) nm
      then (Inr (), s\<lparr>data := dict_setitem nm new_record (data s)\<rparr>)
      else (Inl KeyError, s))"

definition delete :: "state \<Rightarrow> string \<Rightarrow> state" where
  "delete s nm =
     (if dict_contains (data s) nm then s\<lparr>data := dict_delitem nm (data s)\<rparr> else s)"

text \<open>\<^verbatim>\<open>self.data.items()\<close>: the names with the records they refer to.\<close>

definition items :: "state \<Rightarrow> (string \<times> Record) list" where
  "items s = map (\<lambda>(nm, a). (nm, objs s ! a)) (data s)"

subsection \<open>get\_birthdays\_per\_week\<close>

text \<open>
  The method reads the clock for \<^verbatim>\<open>today\<close> and \<^verbatim>\<open>today_day\<close>; here the date is an argument
  and \<^verbatim>\<open>today_day\<close> is its weekday name. The method prints the dictionary
  \<^verbatim>\<open>birthdays_by_day\<close> it has filled, one line per key; the model returns that dictionary.
  A \<^verbatim>\<open>defaultdict(list)\<close> creates a key, after the existing ones, the first time a name is
  appended under it.
\<close>

type_synonym buckets = "(weekday \<times> string list) list"

fun bucket_append :: "weekday \<Rightarrow> string \<Rightarrow> buckets \<Rightarrow> buckets" where
  "bucket_append k x [] = [(k, [x])]"
| "bucket_append k x ((k', xs) # d) =
     (if k' = k then (k', xs @ [x]) # d else (k', xs) # bucket_append k x d)"

text \<open>
  Lines 101 to 105: the birthday moved to the year of \<^verbatim>\<open>today\<close> and, in one case, moved
  again to the year after. The test \<^verbatim>\<open>if record.birthday.value\<close> of line 101 is always
  true here, since \<^verbatim>\<open>strptime\<close> has just parsed that string.
\<close>

definition birthday_this_year :: "date \<Rightarrow> weekday \<Rightarrow> date \<Rightarrow> error + date" where
  "birthday_this_year today today_day bd =
     (case replace_year bd (year today) of
        Inl e \<Rightarrow> Inl e
      | Inr bty \<Rightarrow>
          if date_less bty today then
            (if sub_days bty today > - 3 \<and> today_day \<notin> set [Monday, Sunday, Saturday]
             then replace_year bty (year today + 1)
             else Inr bty)
          else Inr bty)"

text \<open>Line 107, for a record whose birthday holds the string \<open>v\<close>.\<close>

definition delta_days :: "date \<Rightarrow> weekday \<Rightarrow> string \<Rightarrow> error + int" where
  "delta_days today today_day v =
     (case strptime v of
        Inl e \<Rightarrow> Inl e
      | Inr bd \<Rightarrow>
          (case birthday_this_year today today_day bd of
             Inl e \<Rightarrow> Inl e
           | Inr bty \<Rightarrow> Inr (sub_days bty today)))"

text \<open>
  Line 110: the weekday name of \<^verbatim>\<open>today + timedelta(days=delta_days)\<close>.
\<close>

definition raw_weekday :: "date \<Rightarrow> int \<Rightarrow> error + weekday" where
  "raw_weekday today dd =
     (case add_days today dd of Inl e \<Rightarrow> Inl e | Inr dt \<Rightarrow> Inr (strftime_A dt))"

text \<open>
  Lines 109 to 123: the key under which the name is filed, or None where the loop goes on
  to the next record (\<^verbatim>\<open>continue\<close>). The branches are written in the order and with
  the tests of the source; its test \<^verbatim>\<open>delta_days is not None\<close> is always true here.
\<close>

definition celebration_day :: "date \<Rightarrow> weekday \<Rightarrow> int \<Rightarrow> error + weekday option" where
  "celebration_day today today_day dd =
     (if dd < 7 \<and> dd \<ge> - 2 then
        (case raw_weekday today dd of
           Inl e \<Rightarrow> Inl e
         | Inr birthday_weekday \<Rightarrow>
             if dd < 7 \<and> dd \<ge> 0 \<and> today_day \<notin> set [Monday, Sunday, Saturday] then
               (if birthday_weekday \<in> set [Sunday, Saturday] then Inr (Some Monday)
                else Inr (Some birthday_weekday))
             else if dd < 7 \<and> dd > 5 \<and> today_day = Monday then Inr None
             else if dd \<ge> - 2 \<and> dd \<le> 0 \<and> today_day = Monday then Inr (Some Monday)
             else if dd \<ge> - 1 \<and> dd = 0 \<and> today_day = Sunday then Inr (Some Monday)
             else if dd = 0 \<and> today_day = Sunday then Inr (Some Monday)
             else Inr (Some birthday_weekday))
      else Inr None)"

text \<open>The body of the loop for one record: the key for its name, None, or the exception.\<close>

definition record_day :: "date \<Rightarrow> weekday \<Rightarrow> Record \<Rightarrow> error + weekday option" where
  "record_day today today_day r =
     (case birthday r of
        None \<Rightarrow> Inr None
      | Some b \<Rightarrow>
          (case delta_days today today_day (value_of b) of
             Inl e \<Rightarrow> Inl e
           | Inr dd \<Rightarrow> celebration_day today today_day dd))"

fun birthdays_loop ::
  "date \<Rightarrow> weekday \<Rightarrow> (string \<times> Record) list \<Rightarrow> buckets \<Rightarrow> error + buckets" where
  "birthdays_loop today today_day [] birthdays_by_day = Inr birthdays_by_day"
| "birthdays_loop today today_day ((nm, r) # rest) birthdays_by_day =
     (case record_day today today_day r of
        Inl e \<Rightarrow> Inl e
      | Inr None \<Rightarrow> birthdays_loop today today_day rest birthdays_by_day
      | Inr (Some wd) \<Rightarrow>
          birthdays_loop today today_day rest (bucket_append wd nm birthdays_by_day))"

definition get_birthdays_per_week :: "date \<Rightarrow> state \<Rightarrow> error + buckets" where
  "get_birthdays_per_week today s =
     birthdays_loop today (strftime_A today) (items s) []"

text \<open>The names filed under a weekday, and all the names filed.\<close>

definition bucket :: "buckets \<Rightarrow> weekday \<Rightarrow> string list" where
  "bucket b k = (case dict_get b k of None \<Rightarrow> [] | Some xs \<Rightarrow> xs)"

definition filed :: "buckets \<Rightarrow> string set" where
  "filed b = (\<Union>(k, xs) \<in> set b. set xs)"

subsection \<open>Calls a client can make\<close>

text \<open>
  The states a client reaches from a new book: it constructs Record objects, calls their
  methods (on any Record object it holds, in the book or not), and calls the methods of the
  book; \<^verbatim>\<open>update_record\<close> stores a reference to a Record object the client holds. A call
  that raises leaves the state its method had reached.
\<close>

inductive reachable :: "state \<Rightarrow> bool" where
  start: "reachable AddressBook_init"
| new_Record:
    "reachable s \<Longrightarrow> Record_init nm bd = Inr r \<Longrightarrow> reachable (s\<lparr>objs := objs s @ [r]\<rparr>)"
| call_add_phone:
    "reachable s \<Longrightarrow> a < length (objs s) \<Longrightarrow>
     reachable (s\<lparr>objs := (objs s)[a := snd (add_phone (objs s ! a) phone)]\<rparr>)"
| call_remove_phone:
    "reachable s \<Longrightarrow> a < length (objs s) \<Longrightarrow>
     reachable (s\<lparr>objs := (objs s)[a := remove_phone (objs s ! a) phone]\<rparr>)"
| call_edit_phone:
    "reachable s \<Longrightarrow> a < length (objs s) \<Longrightarrow>
     reachable (s\<lparr>objs := (objs s)[a := snd (edit_phone (objs s ! a) old_phone new_phone)]\<rparr>)"
| call_add_birthday:
    "reachable s \<Longrightarrow> a < length (objs s) \<Longrightarrow>
     b = Raw v \<or> (\<exists>f. Birthday_init v = Inr f \<and> b = BirthdayObject f) \<Longrightarrow>
     reachable (s\<lparr>objs := (objs s)[a := snd (add_birthday (objs s ! a) b)]\<rparr>)"
| call_add_record:
    "reachable s \<Longrightarrow> reachable (snd (add_record s nm phone bd))"
| call_update_record:
    "reachable s \<Longrightarrow> a < length (objs s) \<Longrightarrow> reachable (snd (update_record s nm a))"
| call_delete:
    "reachable s \<Longrightarrow> reachable (delete s nm)"

subsection \<open>Predicates of the specification and example values\<close>

text \<open>A string of exactly ten decimal digits.\<close>

definition ten_digits :: "string \<Rightarrow> bool" where
  "ten_digits v = (length v = 10 \<and> list_all is_digit v)"

text \<open>Every phone of the record is what the Phone constructor returns for its value.\<close>

definition phones_checked :: "Record \<Rightarrow> bool" where
  "phones_checked r = list_all (\<lambda>p. Phone_init (value_of p) = Inr p) (phones r)"

text \<open>Every reference held by the dictionary is the address of an object.\<close>

definition refs_ok :: "state \<Rightarrow> bool" where
  "refs_ok s = list_all (\<lambda>(nm, a). a < length (objs s)) (data s)"

text \<open>
  The texts that the groups of the \<^verbatim>\<open>strptime\<close> expression accept: a day is 1 to 9 written
  as one digit, or after a zero or a space, or 10 to 31; a month is 1 to 9 written as one
  digit, or after a zero, or 10 to 12; a year is four digits.
\<close>

definition nonzero_digit :: "char \<Rightarrow> bool" where
  "nonzero_digit c = (c \<in> set ''123456789'')"

definition day_text :: "string \<Rightarrow> bool" where
  "day_text t =
     (case t of
        [c] \<Rightarrow> nonzero_digit c
      | [c1, c2] \<Rightarrow>
          (c1 = CHR ''0'' \<and> nonzero_digit c2) \<or> (c1 = CHR '' '' \<and> nonzero_digit c2) \<or>
          (c1 \<in> set ''12'' \<and> is_digit c2) \<or> (c1 = CHR ''3'' \<and> c2 \<in> set ''01'')
      | _ \<Rightarrow> False)"

definition month_text :: "string \<Rightarrow> bool" where
  "month_text t =
     (case t of
        [c] \<Rightarrow> nonzero_digit c
      | [c1, c2] \<Rightarrow>
          (c1 = CHR ''0'' \<and> nonzero_digit c2) \<or> (c1 = CHR ''1'' \<and> c2 \<in> set ''012'')
      | _ \<Rightarrow> False)"

definition year_text :: "string \<Rightarrow> bool" where
  "year_text t = (length t = 4 \<and> list_all is_digit t)"

text \<open>The pattern DD-MM-YYYY: two digits, a hyphen, two digits, a hyphen, four digits.\<close>

definition dd_mm_yyyy :: "string \<Rightarrow> bool" where
  "dd_mm_yyyy s =
     (length s = 10 \<and> list_all is_digit (take 2 s) \<and> s ! 2 = CHR ''-'' \<and>
      list_all is_digit (take 2 (drop 3 s)) \<and> s ! 5 = CHR ''-'' \<and>
      list_all is_digit (drop 6 s))"

definition ann :: Record where
  "ann = \<lparr>name = Field ''Ann'', phones = [Field ''1234567890''], birthday = None\<rparr>"

definition book_ann :: state where
  "book_ann = snd (add_record AddressBook_init ''Ann'' ''1234567890'' None)"

definition book_two :: state where
  "book_two = snd (add_record book_ann ''Bob'' ''0123456789'' (Some ''1-11-1990''))"

definition bob :: Record where
  "bob = \<lparr>name = Field ''Bob'', phones = [Field ''0123456789''],
          birthday = Some (Field ''1-11-1990'')\<rparr>"

definition eve :: Record where
  "eve = \<lparr>name = Field ''Eve'', phones = [Field ''1234567890''],
          birthday = Some (Field ''02-01-1990'')\<rparr>"

definition leo :: Record where
  "leo = \<lparr>name = Field ''Leo'', phones = [Field ''0123456789''],
          birthday = Some (Field ''29-02-2000'')\<rparr>"

definition book_jan :: state where
  "book_jan = snd (add_record AddressBook_init ''Eve'' ''1234567890'' (Some ''02-01-1990''))"

definition book_leap :: state where
  "book_leap = snd (add_record book_ann ''Leo'' ''0123456789'' (Some ''29-02-2000''))"

definition book_lb :: state where
  "book_lb = snd (add_record book_leap ''Bob'' ''0123456789'' (Some ''1-11-1990''))"

section \<open>Phone numbers\<close>

lemma re_match_phone_iff:
  "re_match_phone v = (ten_digits v \<or> (\<exists>w. v = w @ [CHR 0x0A] \<and> ten_digits w))"
proof
  assume m: "re_match_phone v"
  then have len: "length (take 10 v) = 10" and dig: "list_all is_digit (take 10 v)"
    and rest: "drop 10 v = [] \<or> drop 10 v = [CHR 0x0A]"
    by (simp_all add: re_match_phone_def)
  have parts: "v = take 10 v @ drop 10 v" by simp
  from rest show "ten_digits v \<or> (\<exists>w. v = w @ [CHR 0x0A] \<and> ten_digits w)"
  proof
    assume "drop 10 v = []"
    with parts have "v = take 10 v" by simp
    with len dig have "ten_digits v" by (simp add: ten_digits_def)
    then show ?thesis ..
  next
    assume "drop 10 v = [CHR 0x0A]"
    with parts have "v = take 10 v @ [CHR 0x0A]" by simp
    moreover from len dig have "ten_digits (take 10 v)" by (simp add: ten_digits_def)
    ultimately show ?thesis by blast
  qed
next
  assume "ten_digits v \<or> (\<exists>w. v = w @ [CHR 0x0A] \<and> ten_digits w)"
  then show "re_match_phone v"
    by (auto simp: re_match_phone_def ten_digits_def)
qed

lemma Phone_init_ten_digits: "ten_digits v \<Longrightarrow> Phone_init v = Inr (Field v)"
  by (simp add: Phone_init_def re_match_phone_iff)

lemma Phone_init_result: "Phone_init v = Inr p \<Longrightarrow> value_of p = v"
  by (auto simp: Phone_init_def split: if_splits)

text \<open>
  C6. The claim: the Phone constructor accepts a string if and only if it consists of
  exactly ten decimal digits, a trailing newline excluded. The constructor accepts the
  eleven characters \<^verbatim>\<open>1234567890\n\<close>, which are not ten digits, and stores them as they are.
\<close>

theorem Phone_init_trailing_newline:
  "Phone_init (''1234567890'' @ [CHR 0x0A]) = Inr (Field (''1234567890'' @ [CHR 0x0A])) \<and>
   \<not> ten_digits (''1234567890'' @ [CHR 0x0A])"
  by (simp add: Phone_init_def re_match_phone_def is_digit_def ten_digits_def)

section \<open>Editing and finding phones\<close>

lemma find_append_new: "find (\<lambda>p. value_of p = x) (ps @ [Field x]) = Some (Field x)"
  by (induction ps) auto

lemma edit_phone_valid:
  "re_match_phone new_phone \<Longrightarrow>
   edit_phone r old_phone new_phone =
     (Inr (), r\<lparr>phones := filter (\<lambda>p. value_of p \<noteq> old_phone) (phones r) @ [Field new_phone]\<rparr>)"
  by (simp add: edit_phone_def add_phone_def Phone_init_def remove_phone_def)

text \<open>
  C4, as amended. For a record that holds a phone with the value \<open>old_phone\<close> and a string
  \<open>new_phone\<close> that the Phone check accepts, \<^verbatim>\<open>edit_phone(old_phone, new_phone)\<close> returns
  normally and afterwards \<^verbatim>\<open>find_phone(new_phone)\<close> finds a phone; when the two strings
  differ, \<^verbatim>\<open>find_phone(old_phone)\<close> finds none.
\<close>

theorem edit_phone_then_find:
  assumes "find_phone r old_phone \<noteq> None" and "re_match_phone new_phone"
  shows "fst (edit_phone r old_phone new_phone) = Inr () \<and>
         find_phone (snd (edit_phone r old_phone new_phone)) new_phone = Some (Field new_phone) \<and>
         (old_phone \<noteq> new_phone \<longrightarrow>
            find_phone (snd (edit_phone r old_phone new_phone)) old_phone = None)"
proof -
  let ?ps = "filter (\<lambda>p. value_of p \<noteq> old_phone) (phones r)"
  note e = edit_phone_valid [OF assms(2), of r old_phone]
  have n: "find (\<lambda>p. value_of p = new_phone) (?ps @ [Field new_phone]) = Some (Field new_phone)"
    by (rule find_append_new)
  have o: "old_phone \<noteq> new_phone \<Longrightarrow>
             find (\<lambda>p. value_of p = old_phone) (?ps @ [Field new_phone]) = None"
    by (auto simp: find_None_iff)
  from e n o show ?thesis by (simp add: find_phone_def)
qed

theorem edit_phone_then_find_witness:
  "find_phone ann ''1234567890'' \<noteq> None \<and> re_match_phone ''0987654321'' \<and>
   ''1234567890'' \<noteq> ''0987654321'' \<and>
   fst (edit_phone ann ''1234567890'' ''0987654321'') = Inr () \<and>
   find_phone (snd (edit_phone ann ''1234567890'' ''0987654321'')) ''0987654321'' =
     Some (Field ''0987654321'') \<and>
   find_phone (snd (edit_phone ann ''1234567890'' ''0987654321'')) ''1234567890'' = None"
proof -
  have h1: "find_phone ann ''1234567890'' \<noteq> None"
    by (simp add: find_phone_def ann_def)
  have h2: "re_match_phone ''0987654321''"
    by (simp add: re_match_phone_def is_digit_def)
  from edit_phone_then_find [OF h1 h2] h1 h2 show ?thesis by simp
qed

text \<open>
  The claim as it is written includes \<open>old_phone = new_phone\<close>: there the phone is removed
  and added again, and the lookup of the old value finds it.
\<close>

theorem edit_phone_same_value:
  "find_phone ann ''1234567890'' \<noteq> None \<and> re_match_phone ''1234567890'' \<and>
   fst (edit_phone ann ''1234567890'' ''1234567890'') = Inr () \<and>
   find_phone (snd (edit_phone ann ''1234567890'' ''1234567890'')) ''1234567890'' =
     Some (Field ''1234567890'')"
  by (simp add: find_phone_def ann_def edit_phone_def add_phone_def remove_phone_def
      Phone_init_def re_match_phone_def is_digit_def)

section \<open>The dictionary of the book\<close>

lemma dict_get_setitem:
  "dict_get (dict_setitem k v d) k' = (if k' = k then Some v else dict_get d k')"
  by (induction k v d rule: dict_setitem.induct) auto

lemma dict_setitem_present_keys:
  "dict_get d k \<noteq> None \<Longrightarrow> map fst (dict_setitem k v d) = map fst d"
  by (induction k v d rule: dict_setitem.induct) auto

lemma dict_setitem_keys_set: "fst ` set (dict_setitem k v d) = insert k (fst ` set d)"
  by (induction k v d rule: dict_setitem.induct) auto

lemma dict_setitem_keys: "distinct (map fst d) \<Longrightarrow> distinct (map fst (dict_setitem k v d))"
  by (induction k v d rule: dict_setitem.induct) (auto simp: dict_setitem_keys_set)

lemma dict_delitem_subset: "set (dict_delitem k d) \<subseteq> set d"
  by (induction k d rule: dict_delitem.induct) auto

lemma dict_delitem_keys: "distinct (map fst d) \<Longrightarrow> distinct (map fst (dict_delitem k d))"
  using dict_delitem_subset [of k]
  by (induction k d rule: dict_delitem.induct) (auto simp: image_iff)

lemma dict_setitem_all: "list_all P d \<Longrightarrow> P (k, v) \<Longrightarrow> list_all P (dict_setitem k v d)"
  by (induction k v d rule: dict_setitem.induct) auto

lemma dict_delitem_all: "list_all P d \<Longrightarrow> list_all P (dict_delitem k d)"
  by (induction k d rule: dict_delitem.induct) auto

lemma book_ann_eq: "book_ann = \<lparr>objs = [ann], data = [(''Ann'', 0)]\<rparr>"
  by (simp add: book_ann_def add_record_def Record_init_def add_phone_def Phone_init_def
      re_match_phone_def is_digit_def AddressBook_init_def ann_def)

section \<open>add\_record with an invalid argument\<close>

lemma strptime_empty: "strptime [] = Inl ValueError"
  by (simp add: strptime_def format_regex_def group_dash_def re_d_def alt_def seq_def cls_def)

lemma strptime_31_02_2000: "strptime ''31-02-2000'' = Inl ValueError"
  by (simp add: strptime_def format_regex_def group_dash_def re_d_def re_m_def re_Y_def alt_def seq_def
      cls_def py_int_def date_new_def check_date_fields_def days_in_month_def is_leap_def
      DAYS_IN_MONTH_def)

lemma add_record_empty_string:
  "add_record s nm phone (Some []) = add_record s nm phone None"
  by (simp add: add_record_def Record_init_def)

text \<open>
  C5, as amended. For every state of the book and every name: when the Phone check rejects
  the phone string, or a birthday string is given that is not empty and that the Birthday
  check rejects, \<^verbatim>\<open>add_record\<close> raises ValueError and the state (the dictionary and every
  Record object) is as before the call.
\<close>

theorem add_record_invalid:
  assumes "Phone_init phone = Inl ValueError \<or>
           (\<exists>b. bd = Some b \<and> b \<noteq> [] \<and> Birthday_init b = Inl ValueError)"
  shows "add_record s nm phone bd = (Inl ValueError, s)"
proof (cases "\<exists>b. bd = Some b \<and> b \<noteq> [] \<and> Birthday_init b = Inl ValueError")
  case True
  then have "Record_init nm bd = Inl ValueError"
    by (auto simp: Record_init_def)
  then show ?thesis by (simp add: add_record_def)
next
  case False
  with assms have p: "Phone_init phone = Inl ValueError" by blast
  show ?thesis
  proof (cases "Record_init nm bd")
    case (Inl e)
    then have "e = ValueError"
      by (auto simp: Record_init_def Birthday_init_def split: option.splits if_splits sum.splits)
    with Inl show ?thesis by (simp add: add_record_def)
  next
    case (Inr r)
    with p show ?thesis by (simp add: add_record_def add_phone_def)
  qed
qed

theorem add_record_invalid_witness:
  "Phone_init ''12345'' = Inl ValueError \<and>
   Birthday_init ''31-02-2000'' = Inl ValueError \<and>
   add_record book_ann ''Bob'' ''12345'' None = (Inl ValueError, book_ann) \<and>
   add_record book_ann ''Bob'' ''1234567890'' (Some ''31-02-2000'') = (Inl ValueError, book_ann)"
proof -
  have p: "Phone_init ''12345'' = Inl ValueError"
    by (simp add: Phone_init_def re_match_phone_def)
  have b: "Birthday_init ''31-02-2000'' = Inl ValueError"
    by (simp add: Birthday_init_def strptime_31_02_2000)
  from p add_record_invalid [of "''12345''" None book_ann "''Bob''"]
  have 1: "add_record book_ann ''Bob'' ''12345'' None = (Inl ValueError, book_ann)" by blast
  from b add_record_invalid [of "''1234567890''" "Some ''31-02-2000''" book_ann "''Bob''"]
  have 2: "add_record book_ann ''Bob'' ''1234567890'' (Some ''31-02-2000'') =
             (Inl ValueError, book_ann)" by simp
  from p b 1 2 show ?thesis by simp
qed

text \<open>
  The claim as it is written covers every birthday string that the Birthday check rejects.
  The empty string is one, and \<^verbatim>\<open>add_record\<close> takes it as no birthday and stores the record.
\<close>

theorem add_record_empty_birthday:
  "Birthday_init [] = Inl ValueError \<and>
   add_record AddressBook_init ''Ann'' ''1234567890'' (Some []) =
     (Inr (), \<lparr>objs = [ann], data = [(''Ann'', 0)]\<rparr>)"
  by (simp add: Birthday_init_def strptime_empty add_record_def Record_init_def add_phone_def
      Phone_init_def re_match_phone_def is_digit_def AddressBook_init_def ann_def)

section \<open>update\_record\<close>

lemma book_two_eq:
  "book_two = \<lparr>objs = [ann, \<lparr>name = Field ''Bob'', phones = [Field ''0123456789''],
                                birthday = Some (Field ''1-11-1990'')\<rparr>],
                data = [(''Ann'', 0), (''Bob'', 1)]\<rparr>"
proof -
  have "strptime ''1-11-1990'' = Inr \<lparr>year = 1990, month = 11, day = 1\<rparr>"
    by (simp add: strptime_def format_regex_def group_dash_def re_d_def re_m_def re_Y_def alt_def seq_def
        cls_def py_int_def date_new_def check_date_fields_def days_in_month_def is_leap_def
        DAYS_IN_MONTH_def)
  then show ?thesis
    by (simp add: book_two_def book_ann_eq add_record_def Record_init_def Birthday_init_def
        add_phone_def Phone_init_def re_match_phone_def is_digit_def)
qed

text \<open>
  C8. For every state of the book and every name: when the name is not a key of the
  dictionary, \<^verbatim>\<open>update_record\<close> raises KeyError and the state is unchanged; when it is a key,
  the call returns normally, the name then refers to the new record, every other name
  refers to what it referred to before, and the keys and the Record objects are unchanged.
\<close>

theorem update_record_spec:
  "(\<not> dict_contains (data s) nm \<longrightarrow> update_record s nm a = (Inl KeyError, s)) \<and>
   (dict_contains (data s) nm \<longrightarrow>
      fst (update_record s nm a) = Inr () \<and>
      find_record (snd (update_record s nm a)) nm = Some a \<and>
      (\<forall>k. k \<noteq> nm \<longrightarrow> find_record (snd (update_record s nm a)) k = find_record s k) \<and>
      map fst (data (snd (update_record s nm a))) = map fst (data s) \<and>
      objs (snd (update_record s nm a)) = objs s)"
  by (simp add: update_record_def find_record_def dict_get_setitem dict_contains_def
      dict_setitem_present_keys)

theorem update_record_spec_witness:
  "\<not> dict_contains (data book_ann) ''Bob'' \<and>
   update_record book_ann ''Bob'' 0 = (Inl KeyError, book_ann) \<and>
   dict_contains (data book_two) ''Ann'' \<and>
   fst (update_record book_two ''Ann'' 1) = Inr () \<and>
   find_record (snd (update_record book_two ''Ann'' 1)) ''Ann'' = Some 1 \<and>
   ''Bob'' \<noteq> ''Ann'' \<and>
   find_record (snd (update_record book_two ''Ann'' 1)) ''Bob'' = Some 1 \<and>
   find_record book_two ''Bob'' = Some 1 \<and>
   map fst (data (snd (update_record book_two ''Ann'' 1))) = [''Ann'', ''Bob'']"
proof -
  have absent: "\<not> dict_contains (data book_ann) ''Bob''"
    by (simp add: book_ann_eq dict_contains_def)
  have present: "dict_contains (data book_two) ''Ann''"
    by (simp add: book_two_eq dict_contains_def)
  have bob: "find_record book_two ''Bob'' = Some 1"
    by (simp add: book_two_eq find_record_def)
  have keys: "map fst (data book_two) = [''Ann'', ''Bob'']"
    by (simp add: book_two_eq)
  from update_record_spec [of book_ann "''Bob''" 0] absent
  have 1: "update_record book_ann ''Bob'' 0 = (Inl KeyError, book_ann)" by blast
  from update_record_spec [of book_two "''Ann''" 1] present
  have 2: "fst (update_record book_two ''Ann'' 1) = Inr () \<and>
      find_record (snd (update_record book_two ''Ann'' 1)) ''Ann'' = Some 1 \<and>
      (\<forall>k. k \<noteq> ''Ann'' \<longrightarrow>
         find_record (snd (update_record book_two ''Ann'' 1)) k = find_record book_two k) \<and>
      map fst (data (snd (update_record book_two ''Ann'' 1))) = map fst (data book_two)"
    by blast
  then have 3: "find_record (snd (update_record book_two ''Ann'' 1)) ''Bob'' =
                  find_record book_two ''Bob''"
    by simp
  from absent present bob keys 1 2 3 show ?thesis by simp
qed

section \<open>Stored phones have passed the check\<close>

lemma Record_init_checked: "Record_init nm bd = Inr r \<Longrightarrow> phones_checked r"
  by (auto simp: Record_init_def phones_checked_def split: option.splits if_splits sum.splits)

lemma add_phone_checked: "phones_checked r \<Longrightarrow> phones_checked (snd (add_phone r phone))"
  by (auto simp: add_phone_def phones_checked_def Phone_init_def split: sum.splits if_splits)

lemma remove_phone_checked: "phones_checked r \<Longrightarrow> phones_checked (remove_phone r phone)"
  by (auto simp: remove_phone_def phones_checked_def list_all_iff)

lemma edit_phone_checked:
  "phones_checked r \<Longrightarrow> phones_checked (snd (edit_phone r old_phone new_phone))"
  by (simp add: edit_phone_def add_phone_checked remove_phone_checked)

lemma add_birthday_checked: "phones_checked r \<Longrightarrow> phones_checked (snd (add_birthday r b))"
  by (auto simp: add_birthday_def phones_checked_def split: birthday_arg.splits)

lemma list_all_update:
  "list_all P xs \<Longrightarrow> a < length xs \<Longrightarrow> (P (xs ! a) \<Longrightarrow> P x) \<Longrightarrow> list_all P (xs[a := x])"
  by (simp add: list_all_length nth_list_update)

lemma add_record_objs:
  "list_all phones_checked (objs s) \<Longrightarrow>
   list_all phones_checked (objs (snd (add_record s nm phone bd)))"
  using Record_init_checked [of nm bd] add_phone_checked
  by (auto simp: add_record_def split: sum.splits prod.splits) (metis snd_conv)

lemma reachable_objs_checked: "reachable s \<Longrightarrow> list_all phones_checked (objs s)"
proof (induction rule: reachable.induct)
  case start
  then show ?case by (simp add: AddressBook_init_def)
next
  case (new_Record s nm bd r)
  then show ?case by (simp add: Record_init_checked)
next
  case (call_add_phone s a phone)
  then show ?case by (auto intro!: list_all_update add_phone_checked)
next
  case (call_remove_phone s a phone)
  then show ?case by (auto intro!: list_all_update remove_phone_checked)
next
  case (call_edit_phone s a old_phone new_phone)
  then show ?case by (auto intro!: list_all_update edit_phone_checked)
next
  case (call_add_birthday s a b v)
  then show ?case by (auto intro!: list_all_update add_birthday_checked)
next
  case (call_add_record s nm phone bd)
  from call_add_record.IH show ?case by (rule add_record_objs)
next
  case (call_update_record s a nm)
  then show ?case by (simp add: update_record_def)
next
  case (call_delete s nm)
  then show ?case by (simp add: delete_def)
qed

lemma refs_ok_grow:
  "refs_ok s \<Longrightarrow> data s' = data s \<Longrightarrow> length (objs s) \<le> length (objs s') \<Longrightarrow> refs_ok s'"
  by (auto simp: refs_ok_def list_all_iff)

lemma reachable_refs_ok: "reachable s \<Longrightarrow> refs_ok s"
proof (induction rule: reachable.induct)
  case start
  then show ?case by (simp add: AddressBook_init_def refs_ok_def)
next
  case (call_add_record s nm phone bd)
  have "list_all (\<lambda>(nm, a). a < Suc (length (objs s))) (data s)"
    using call_add_record.IH by (auto simp: refs_ok_def list_all_iff)
  then show ?case
    by (auto simp: add_record_def refs_ok_def call_add_record.IH [unfolded refs_ok_def]
        intro!: dict_setitem_all split: sum.splits prod.splits)
next
  case (call_update_record s a nm)
  then show ?case
    by (auto simp: update_record_def refs_ok_def intro!: dict_setitem_all)
next
  case (call_delete s nm)
  then show ?case
    by (auto simp: delete_def refs_ok_def intro!: dict_delitem_all)
qed (auto elim: refs_ok_grow)

lemma reachable_distinct: "reachable s \<Longrightarrow> distinct (map fst (data s))"
proof (induction rule: reachable.induct)
  case start
  then show ?case by (simp add: AddressBook_init_def)
next
  case (call_add_record s nm phone bd)
  then show ?case
    by (auto simp: add_record_def dict_setitem_keys split: sum.splits prod.splits)
next
  case (call_update_record s a nm)
  then show ?case by (auto simp: update_record_def dict_setitem_keys)
next
  case (call_delete s nm)
  then show ?case by (auto simp: delete_def dict_delitem_keys)
qed auto

text \<open>
  C10. In every state reached through the calls of \<open>reachable\<close> (the Record constructor and
  methods, \<^verbatim>\<open>add_record\<close>, \<^verbatim>\<open>update_record\<close>, \<^verbatim>\<open>delete\<close>, including the calls that
  raise), every phone in the phone list of every Record object, and so of every record of
  the book, is the Field that the Phone constructor returns for its value: the check
  accepted it.
\<close>

theorem stored_phones_validated:
  assumes "reachable s"
  shows "(\<forall>r \<in> set (objs s). \<forall>p \<in> set (phones r). Phone_init (value_of p) = Inr p) \<and>
         (\<forall>(nm, r) \<in> set (items s). \<forall>p \<in> set (phones r). Phone_init (value_of p) = Inr p)"
proof -
  have a: "\<forall>r \<in> set (objs s). \<forall>p \<in> set (phones r). Phone_init (value_of p) = Inr p"
    using reachable_objs_checked [OF assms] by (simp add: list_all_iff phones_checked_def)
  have "\<And>nm r. (nm, r) \<in> set (items s) \<Longrightarrow> r \<in> set (objs s)"
    using reachable_refs_ok [OF assms] by (auto simp: items_def refs_ok_def list_all_iff)
  with a show ?thesis by blast
qed

theorem stored_phones_validated_witness:
  "reachable book_two \<and> (''Bob'', objs book_two ! 1) \<in> set (items book_two) \<and>
   Field ''0123456789'' \<in> set (phones (objs book_two ! 1)) \<and>
   Phone_init (value_of (Field ''0123456789'')) = Inr (Field ''0123456789'')"
proof -
  have "reachable book_ann"
    unfolding book_ann_def by (rule call_add_record [OF start])
  then have r: "reachable book_two"
    unfolding book_two_def by (rule call_add_record)
  have i: "(''Bob'', objs book_two ! 1) \<in> set (items book_two)"
    by (simp add: book_two_eq items_def)
  have p: "Field ''0123456789'' \<in> set (phones (objs book_two ! 1))"
    by (simp add: book_two_eq)
  from stored_phones_validated [OF r] i p
  have "Phone_init (value_of (Field ''0123456789'')) = Inr (Field ''0123456789'')"
    by blast
  with r i p show ?thesis by simp
qed

section \<open>The weekly birthday report\<close>

subsection \<open>Evaluation of the calendar on given dates\<close>

lemmas date_defs = strftime_A_def toordinal_def ymd2ord_def days_before_year_def
  days_before_month_def DAYS_BEFORE_MONTH_def DAYS_IN_MONTH_def days_in_month_def is_leap_def
  day_name_def date_new_def check_date_fields_def replace_year_def date_less_def sub_days_def
  add_days_def ord2ymd_def MAXORDINAL_def Let_def

lemmas strptime_defs = strptime_def format_regex_def group_dash_def re_d_def re_m_def re_Y_def alt_def seq_def
  cls_def py_int_def

lemmas week_defs = birthday_this_year_def delta_days_def raw_weekday_def celebration_day_def
  record_day_def get_birthdays_per_week_def items_def

subsection \<open>The loop over the records\<close>

lemma bucket_append_same: "bucket (bucket_append k x b) k = bucket b k @ [x]"
  by (induction k x b rule: bucket_append.induct) (simp_all add: bucket_def)

lemma bucket_append_other: "k' \<noteq> k \<Longrightarrow> bucket (bucket_append k x b) k' = bucket b k'"
  by (induction k x b rule: bucket_append.induct) (simp_all add: bucket_def)

lemma bucket_append_bucket:
  "set (bucket (bucket_append k x b) k') =
     (if k' = k then insert x (set (bucket b k')) else set (bucket b k'))"
  by (simp add: bucket_append_same bucket_append_other)

lemma bucket_append_filed: "filed (bucket_append k x b) = insert x (filed b)"
  by (induction k x b rule: bucket_append.induct) (auto simp: filed_def)

lemma birthdays_loop_bucket:
  "birthdays_loop t td xs acc = Inr m \<Longrightarrow>
   set (bucket m k) =
     set (bucket acc k) \<union> {nm. \<exists>r. (nm, r) \<in> set xs \<and> record_day t td r = Inr (Some k)}"
proof (induction t td xs acc rule: birthdays_loop.induct)
  case (1 today today_day birthdays_by_day)
  then show ?case by simp
next
  case (2 today today_day nm r rest birthdays_by_day)
  show ?case
  proof (cases "record_day today today_day r")
    case (Inl e)
    with "2.prems" show ?thesis by simp
  next
    case (Inr res)
    show ?thesis
    proof (cases res)
      case None
      with Inr "2.prems" "2.IH"(1) show ?thesis by auto
    next
      case (Some wd)
      with Inr "2.prems" "2.IH"(2) [of res wd] show ?thesis
        by (auto simp: bucket_append_bucket split: if_splits)
    qed
  qed
qed

lemma birthdays_loop_filed:
  "birthdays_loop t td xs acc = Inr m \<Longrightarrow>
   filed m =
     filed acc \<union> {nm. \<exists>r wd. (nm, r) \<in> set xs \<and> record_day t td r = Inr (Some wd)}"
proof (induction t td xs acc rule: birthdays_loop.induct)
  case (1 today today_day birthdays_by_day)
  then show ?case by simp
next
  case (2 today today_day nm r rest birthdays_by_day)
  show ?case
  proof (cases "record_day today today_day r")
    case (Inl e)
    with "2.prems" show ?thesis by simp
  next
    case (Inr res)
    show ?thesis
    proof (cases res)
      case None
      with Inr "2.prems" "2.IH"(1) show ?thesis by auto
    next
      case (Some wd)
      with Inr "2.prems" "2.IH"(2) [of res wd] show ?thesis
        by (auto simp: bucket_append_filed)
    qed
  qed
qed

lemma birthdays_loop_raises:
  "(nm, r) \<in> set xs \<Longrightarrow> record_day t td r = Inl e \<Longrightarrow>
   \<exists>e'. birthdays_loop t td xs acc = Inl e'"
proof (induction t td xs acc rule: birthdays_loop.induct)
  case (1 today today_day birthdays_by_day)
  then show ?case by simp
next
  case (2 today today_day nm' r' rest birthdays_by_day)
  then show ?case
    by (cases "record_day today today_day r'") (auto split: option.splits)
qed

lemma items_keys: "map fst (items s) = map fst (data s)"
  by (simp add: items_def split_def comp_def)

lemma birthdays_loop_returns:
  assumes "birthdays_loop t td xs acc = Inr m" and "(nm, r) \<in> set xs"
  obtains res where "record_day t td r = Inr res"
proof (cases "record_day t td r")
  case (Inl e)
  from birthdays_loop_raises [OF assms(2) Inl, of acc] assms(1) show ?thesis by auto
next
  case (Inr res)
  then show ?thesis by (rule that)
qed

subsection \<open>Ordinals and the order of dates within a year\<close>

lemma days_before_month_step:
  assumes "1 \<le> m" and "m < 12"
  shows "days_before_month y (Suc m) = days_before_month y m + days_in_month y m"
proof -
  from assms have "m = 1 \<or> m = 2 \<or> m = 3 \<or> m = 4 \<or> m = 5 \<or> m = 6 \<or> m = 7 \<or> m = 8 \<or>
      m = 9 \<or> m = 10 \<or> m = 11" by arith
  then show ?thesis
    by (elim disjE)
      (simp_all add: days_before_month_def days_in_month_def DAYS_BEFORE_MONTH_def
        DAYS_IN_MONTH_def eval_nat_numeral)
qed

lemma days_before_month_mono:
  "m < m' \<Longrightarrow> 1 \<le> m \<Longrightarrow> m' \<le> 12 \<Longrightarrow>
   days_before_month y m + days_in_month y m \<le> days_before_month y m'"
proof (induction m')
  case 0
  then show ?case by simp
next
  case (Suc k)
  show ?case
  proof (cases "m = k")
    case True
    with Suc.prems show ?thesis by (simp add: days_before_month_step)
  next
    case False
    with Suc.prems have "m < k" "1 \<le> k" "k < 12" by simp_all
    with Suc show ?thesis by (simp add: days_before_month_step)
  qed
qed

lemma toordinal_less:
  assumes "date_less a b" and "year a = year b"
    and "check_date_fields (year a) (month a) (day a)"
    and "check_date_fields (year b) (month b) (day b)"
  shows "toordinal a < toordinal b"
proof (cases "month a = month b")
  case True
  with assms(1,2) show ?thesis
    by (simp add: date_less_def toordinal_def ymd2ord_def)
next
  case False
  with assms(1,2) have lt: "month a < month b" by (auto simp: date_less_def)
  from assms(3,4) have "1 \<le> month a" "month b \<le> 12" "day a \<le> days_in_month (year a) (month a)"
    "1 \<le> day b" by (simp_all add: check_date_fields_def)
  with days_before_month_mono [OF lt, of "year a"] assms(2) show ?thesis
    by (simp add: toordinal_def ymd2ord_def)
qed

lemma sub_days_nonneg_not_less:
  assumes "0 \<le> sub_days a b" and "year a = year b"
    and "check_date_fields (year a) (month a) (day a)"
    and "check_date_fields (year b) (month b) (day b)"
  shows "\<not> date_less a b"
  using toordinal_less [OF _ assms(2-4)] assms(1) by (auto simp: sub_days_def)

subsection \<open>From an ordinal back to the date\<close>

text \<open>
  \<^verbatim>\<open>_ord2ymd\<close> inverts \<^verbatim>\<open>_ymd2ord\<close>: the date computed for an ordinal has that ordinal, so
  the weekday of \<^verbatim>\<open>today + timedelta(days=k)\<close> is the weekday of \<open>today\<close> moved by \<open>k\<close> days.
\<close>

lemma year_part:
  fixes a b c d :: nat
  assumes "b \<le> 3" "c \<le> 24" "d \<le> 3"
  shows "days_before_year (400 * a + 100 * b + 4 * c + d + 1) =
           146097 * a + 36524 * b + 1461 * c + 365 * d"
proof -
  let ?Y = "400 * a + 100 * b + 4 * c + d"
  from assms have 1: "?Y div 4 = 100 * a + 25 * b + c" by arith
  from assms have 2: "?Y div 100 = 4 * a + b" by arith
  from assms have 3: "?Y div 400 = a" by arith
  show ?thesis unfolding days_before_year_def
    by (simp add: 1 2 3)
qed

lemma month_estimate:
  fixes n :: nat
  assumes "n < 365"
  shows "(n + 50) div 32 = 1 \<or> (n + 50) div 32 = 2 \<or> (n + 50) div 32 = 3 \<or>
    (n + 50) div 32 = 4 \<or> (n + 50) div 32 = 5 \<or> (n + 50) div 32 = 6 \<or>
    (n + 50) div 32 = 7 \<or> (n + 50) div 32 = 8 \<or> (n + 50) div 32 = 9 \<or>
    (n + 50) div 32 = 10 \<or> (n + 50) div 32 = 11 \<or> (n + 50) div 32 = 12"
proof -
  define m where "m = (n + 50) div 32"
  from assms have "1 \<le> m" and "m \<le> 12" unfolding m_def by arith+
  then have "m = 1 \<or> m = 2 \<or> m = 3 \<or> m = 4 \<or> m = 5 \<or> m = 6 \<or> m = 7 \<or> m = 8 \<or> m = 9 \<or>
      m = 10 \<or> m = 11 \<or> m = 12" by arith
  then show ?thesis unfolding m_def .
qed

lemma in_year_later:
  assumes "p = DAYS_BEFORE_MONTH ! m + (if m > 2 \<and> is_leap y then 1 else 0)" and "\<not> p > n"
  shows "toordinal \<lparr>year = y, month = m, day = n - p + 1\<rparr> = days_before_year y + n + 1"
  using assms by (simp add: toordinal_def ymd2ord_def days_before_month_def)

lemma in_year_earlier:
  fixes n :: nat
  assumes n: "n < 365" and m: "m = (n + 50) div 32"
    and p: "p = DAYS_BEFORE_MONTH ! m + (if m > 2 \<and> is_leap y then 1 else 0)" and gt: "p > n"
  shows "toordinal \<lparr>year = y, month = m - 1,
           day = n - (p - (DAYS_IN_MONTH ! (m - 1) + (if m - 1 = 2 \<and> is_leap y then 1 else 0))) + 1\<rparr>
         = days_before_year y + n + 1"
proof -
  from n m have lo: "32 * m \<le> n + 50" by arith
  have goal: "days_before_month y (m - 1) +
      (n - (p - (DAYS_IN_MONTH ! (m - 1) + (if m - 1 = 2 \<and> is_leap y then 1 else 0))) + 1) = n + 1"
    using month_estimate [OF n, folded m]
  proof (elim disjE)
    assume "m = 1" with p gt show ?thesis by (simp add: DAYS_BEFORE_MONTH_def)
  next
    assume "m = 2" with p gt lo show ?thesis
      by (simp add: DAYS_BEFORE_MONTH_def DAYS_IN_MONTH_def days_before_month_def)
  next
    assume "m = 3" with p gt lo show ?thesis
      by (simp add: DAYS_BEFORE_MONTH_def DAYS_IN_MONTH_def days_before_month_def)
  next
    assume "m = 4" with p gt lo show ?thesis
      by (simp add: DAYS_BEFORE_MONTH_def DAYS_IN_MONTH_def days_before_month_def)
  next
    assume "m = 5" with p gt lo show ?thesis
      by (simp add: DAYS_BEFORE_MONTH_def DAYS_IN_MONTH_def days_before_month_def)
  next
    assume "m = 6" with p gt lo show ?thesis
      by (simp add: DAYS_BEFORE_MONTH_def DAYS_IN_MONTH_def days_before_month_def)
  next
    assume "m = 7" with p gt lo show ?thesis
      by (simp add: DAYS_BEFORE_MONTH_def DAYS_IN_MONTH_def days_before_month_def)
  next
    assume "m = 8" with p gt lo show ?thesis
      by (simp add: DAYS_BEFORE_MONTH_def DAYS_IN_MONTH_def days_before_month_def)
  next
    assume "m = 9" with p gt lo show ?thesis
      by (simp add: DAYS_BEFORE_MONTH_def DAYS_IN_MONTH_def days_before_month_def)
  next
    assume "m = 10" with p gt lo show ?thesis
      by (simp add: DAYS_BEFORE_MONTH_def DAYS_IN_MONTH_def days_before_month_def)
  next
    assume "m = 11" with p gt lo show ?thesis
      by (simp add: DAYS_BEFORE_MONTH_def DAYS_IN_MONTH_def days_before_month_def)
  next
    assume "m = 12" with p gt lo show ?thesis
      by (simp add: DAYS_BEFORE_MONTH_def DAYS_IN_MONTH_def days_before_month_def)
  qed
  then show ?thesis by (simp add: toordinal_def ymd2ord_def)
qed

lemma mod_full:
  fixes x k :: nat
  assumes "1 \<le> x" and "x \<le> k"
  shows "x mod k = 0 \<longleftrightarrow> x = k"
  using assms by (cases "x = k") auto

lemma leap_flag:
  fixes a b c d :: nat
  assumes "b \<le> 3" "c \<le> 24" "d \<le> 3"
  shows "is_leap (a * 400 + 1 + b * 100 + c * 4 + d) = (d = 3 \<and> (c \<noteq> 24 \<or> b = 3))"
proof -
  let ?Y = "a * 400 + 1 + b * 100 + c * 4 + d"
  have e4: "?Y = 4 * (100 * a + 25 * b + c) + (d + 1)" by simp
  have e100: "?Y = 100 * (4 * a + b) + (4 * c + d + 1)" by simp
  have e400: "?Y = 400 * a + (100 * b + 4 * c + d + 1)" by simp
  have m4: "?Y mod 4 = (d + 1) mod 4" unfolding e4 by (rule mod_mult_self4)
  have m100: "?Y mod 100 = (4 * c + d + 1) mod 100" unfolding e100 by (rule mod_mult_self4)
  have m400: "?Y mod 400 = (100 * b + 4 * c + d + 1) mod 400"
    unfolding e400 by (rule mod_mult_self4)
  from assms have "d + 1 \<le> 4" by simp
  then have 4: "(d + 1) mod 4 = 0 \<longleftrightarrow> d + 1 = 4" by (intro mod_full) simp_all
  from assms have "4 * c + d + 1 \<le> 100" by simp
  then have 100: "(4 * c + d + 1) mod 100 = 0 \<longleftrightarrow> 4 * c + d + 1 = 100"
    by (intro mod_full) simp_all
  from assms have "100 * b + 4 * c + d + 1 \<le> 400" by simp
  then have 400: "(100 * b + 4 * c + d + 1) mod 400 = 0 \<longleftrightarrow> 100 * b + 4 * c + d + 1 = 400"
    by (intro mod_full) simp_all
  from assms have x: "4 * c + d + 1 = 100 \<longleftrightarrow> d = 3 \<and> c = 24" by arith
  from assms have y: "100 * b + 4 * c + d + 1 = 400 \<longleftrightarrow> d = 3 \<and> c = 24 \<and> b = 3" by arith
  have z: "d + 1 = 4 \<longleftrightarrow> d = 3" by arith
  show ?thesis unfolding is_leap_def m4 m100 m400 4 100 400 x y z by blast
qed

lemma toordinal_ord2ymd:
  assumes "1 \<le> n"
  shows "toordinal (ord2ymd n) = n"
proof -
  define N where "N = n - 1"
  define a where "a = N div 146097"
  define r400 where "r400 = N mod 146097"
  define b where "b = r400 div 36524"
  define r100 where "r100 = r400 mod 36524"
  define c where "c = r100 div 1461"
  define r4 where "r4 = r100 mod 1461"
  define d where "d = r4 div 365"
  define r1 where "r1 = r4 mod 365"
  define Y where "Y = a * 400 + 1 + b * 100 + c * 4 + d"
  have N: "N = 146097 * a + r400" and r400: "r400 < 146097"
    by (simp_all add: a_def r400_def)
  have R400: "r400 = 36524 * b + r100" and r100: "r100 < 36524"
    by (simp_all add: b_def r100_def)
  have R100: "r100 = 1461 * c + r4" and r4: "r4 < 1461"
    by (simp_all add: c_def r4_def)
  have R4: "r4 = 365 * d + r1" and r1: "r1 < 365"
    by (simp_all add: d_def r1_def)
  from assms have n: "n = N + 1" by (simp add: N_def)
  from R400 r400 have b4: "b \<le> 4" by arith
  from R100 r100 have c24: "c \<le> 24" by arith
  from R4 r4 have d4: "d \<le> 4" by arith
  have total: "N = 146097 * a + 36524 * b + 1461 * c + 365 * d + r1"
    using N R400 R100 R4 by simp
  have unfolded: "ord2ymd n =
    (if d = 4 \<or> b = 4 then \<lparr>year = Y - 1, month = 12, day = 31\<rparr>
     else
       let leapyear = (d = 3 \<and> (c \<noteq> 24 \<or> b = 3));
           m = (r1 + 50) div 32;
           preceding = DAYS_BEFORE_MONTH ! m + (if m > 2 \<and> leapyear then 1 else 0)
       in if preceding > r1
          then let m = m - 1;
                   preceding = preceding -
                     (DAYS_IN_MONTH ! m + (if m = 2 \<and> leapyear then 1 else 0))
               in \<lparr>year = Y, month = m, day = r1 - preceding + 1\<rparr>
          else \<lparr>year = Y, month = m, day = r1 - preceding + 1\<rparr>)"
    unfolding ord2ymd_def Y_def r1_def d_def r4_def c_def r100_def b_def r400_def a_def N_def
    by (simp only: Let_def)
  show ?thesis
  proof (cases "d = 4 \<or> b = 4")
    case True
    then have od: "ord2ymd n = \<lparr>year = Y - 1, month = 12, day = 31\<rparr>"
      by (simp only: unfolded if_True)
    from True show ?thesis
    proof
      assume d: "d = 4"
      with R4 r4 have r10: "r1 = 0" by arith
      from d R4 R100 r100 have c23: "c \<le> 23" by arith
      from d R4 R100 R400 r400 have b3: "b \<le> 3" by arith
      have Y1: "Y - 1 = 400 * a + 100 * b + 4 * c + 3 + 1" by (simp add: Y_def d)
      have dby: "days_before_year (Y - 1) = 146097 * a + 36524 * b + 1461 * c + 365 * 3"
        unfolding Y1 using b3 c24 by (intro year_part) simp_all
      have leap: "is_leap (Y - 1)"
      proof -
        have e: "Y - 1 = 4 * (100 * a + 25 * b + c + 1)" by (simp add: Y_def d)
        have e100: "Y - 1 = 100 * (4 * a + b) + (4 * c + 4)" by (simp add: Y_def d)
        have "(Y - 1) mod 4 = 0" unfolding e by simp
        moreover have "(Y - 1) mod 100 = (4 * c + 4) mod 100"
          unfolding e100 by (rule mod_mult_self4)
        moreover from c23 have "(4 * c + 4) mod 100 = 4 * c + 4" by simp
        ultimately show ?thesis by (simp add: is_leap_def)
      qed
      from dby leap total d r10
      have "toordinal \<lparr>year = Y - 1, month = 12, day = 31\<rparr> = N + 1"
        by (simp add: toordinal_def ymd2ord_def days_before_month_def DAYS_BEFORE_MONTH_def)
      then have "toordinal (ord2ymd n) = N + 1" unfolding od .
      with n show ?thesis by simp
    next
      assume b: "b = 4"
      with R400 r400 have "r100 = 0" by arith
      with R100 R4 have z: "c = 0" "d = 0" "r1 = 0" by simp_all
      have Y1: "Y - 1 = 400 * a + 100 * 3 + 4 * 24 + 3 + 1" by (simp add: Y_def b z)
      have dby: "days_before_year (Y - 1) = 146097 * a + 36524 * 3 + 1461 * 24 + 365 * 3"
        unfolding Y1 by (intro year_part) simp_all
      have e: "Y - 1 = 400 * (a + 1)" by (simp add: Y_def b z)
      have leap: "is_leap (Y - 1)" unfolding e by (simp add: is_leap_def)
      from dby leap total b z
      have "toordinal \<lparr>year = Y - 1, month = 12, day = 31\<rparr> = N + 1"
        by (simp add: toordinal_def ymd2ord_def days_before_month_def DAYS_BEFORE_MONTH_def)
      then have "toordinal (ord2ymd n) = N + 1" unfolding od .
      with n show ?thesis by simp
    qed
  next
    case False
    with b4 d4 have b3: "b \<le> 3" and d3: "d \<le> 3" by simp_all
    have Y': "Y = 400 * a + 100 * b + 4 * c + d + 1" by (simp add: Y_def)
    have dby: "days_before_year Y = 146097 * a + 36524 * b + 1461 * c + 365 * d"
      unfolding Y' using b3 c24 d3 by (rule year_part)
    have leap: "is_leap Y = (d = 3 \<and> (c \<noteq> 24 \<or> b = 3))"
      unfolding Y_def using b3 c24 d3 by (rule leap_flag)
    define m where "m = (r1 + 50) div 32"
    define p where "p = DAYS_BEFORE_MONTH ! m + (if m > 2 \<and> is_leap Y then 1 else 0)"
    from False have "ord2ymd n =
       (let leapyear = (d = 3 \<and> (c \<noteq> 24 \<or> b = 3));
           m = (r1 + 50) div 32;
           preceding = DAYS_BEFORE_MONTH ! m + (if m > 2 \<and> leapyear then 1 else 0)
       in if preceding > r1
          then let m = m - 1;
                   preceding = preceding -
                     (DAYS_IN_MONTH ! m + (if m = 2 \<and> leapyear then 1 else 0))
               in \<lparr>year = Y, month = m, day = r1 - preceding + 1\<rparr>
          else \<lparr>year = Y, month = m, day = r1 - preceding + 1\<rparr>)"
      by (simp only: unfolded if_False)
    then have "ord2ymd n =
       (let leapyear = is_leap Y;
           m = (r1 + 50) div 32;
           preceding = DAYS_BEFORE_MONTH ! m + (if m > 2 \<and> leapyear then 1 else 0)
       in if preceding > r1
          then let m = m - 1;
                   preceding = preceding -
                     (DAYS_IN_MONTH ! m + (if m = 2 \<and> leapyear then 1 else 0))
               in \<lparr>year = Y, month = m, day = r1 - preceding + 1\<rparr>
          else \<lparr>year = Y, month = m, day = r1 - preceding + 1\<rparr>)"
      by (simp only: leap [symmetric])
    then have od: "ord2ymd n =
       (if p > r1
        then \<lparr>year = Y, month = m - 1,
               day = r1 - (p - (DAYS_IN_MONTH ! (m - 1) +
                 (if m - 1 = 2 \<and> is_leap Y then 1 else 0))) + 1\<rparr>
        else \<lparr>year = Y, month = m, day = r1 - p + 1\<rparr>)"
      unfolding m_def p_def by (simp only: Let_def)
    show ?thesis
    proof (cases "p > r1")
      case True
      from in_year_earlier [OF r1 m_def p_def True] dby total
      have "toordinal (ord2ymd n) = N + 1" unfolding od by (simp add: True)
      with n show ?thesis by simp
    next
      case gt: False
      from in_year_later [OF p_def gt] dby total
      have "toordinal (ord2ymd n) = N + 1" unfolding od by (simp add: gt)
      with n show ?thesis by simp
    qed
  qed
qed

lemma strftime_A_ord2ymd: "1 \<le> n \<Longrightarrow> strftime_A (ord2ymd n) = day_name ((n + 6) mod 7)"
  by (simp add: strftime_A_def toordinal_ord2ymd)

lemma raw_weekday_value:
  assumes "raw_weekday today dd = Inr wd"
  shows "wd = day_name (nat ((int (toordinal today) + dd + 6) mod 7))"
proof -
  let ?k = "int (toordinal today) + dd"
  from assms have pos: "0 < ?k" and wd: "wd = strftime_A (ord2ymd (nat ?k))"
    by (auto simp: raw_weekday_def add_days_def Let_def split: if_splits)
  from pos have "1 \<le> nat ?k" by simp
  then have "strftime_A (ord2ymd (nat ?k)) = day_name ((nat ?k + 6) mod 7)"
    by (rule strftime_A_ord2ymd)
  moreover from pos have "(nat ?k + 6) mod 7 = nat ((?k + 6) mod 7)"
    by (simp add: nat_mod_distrib nat_add_distrib)
  ultimately show ?thesis using wd by simp
qed

lemma Wednesday_index:
  assumes "strftime_A today = Wednesday"
  shows "(toordinal today + 6) mod 7 = 2"
proof -
  define i where "i = (toordinal today + 6) mod 7"
  have "i < 7" by (simp add: i_def)
  then have "i = 0 \<or> i = 1 \<or> i = 2 \<or> i = 3 \<or> i = 4 \<or> i = 5 \<or> i = 6" by arith
  moreover from assms have "day_name i = Wednesday" by (simp add: strftime_A_def i_def)
  ultimately show ?thesis unfolding i_def [symmetric]
    by (elim disjE) (simp_all add: day_name_def)
qed

lemma Saturday_after_Wednesday:
  assumes "strftime_A today = Wednesday" and "raw_weekday today 3 = Inr wd"
  shows "wd = Saturday"
proof -
  define t where "t = toordinal today + 6"
  from Wednesday_index [OF assms(1)] have i: "t mod 7 = 2" by (simp add: t_def)
  have "(t + 3) mod 7 = (t mod 7 + 3) mod 7" by (rule mod_add_left_eq [symmetric])
  with i have five: "(t + 3) mod 7 = 5" by simp
  have e: "int (toordinal today) + 3 + 6 = int (t + 3)" by (simp add: t_def)
  have "(int (toordinal today) + 3 + 6) mod 7 = int (t + 3) mod 7" by (simp only: e)
  also have "\<dots> = int ((t + 3) mod 7)" by (simp add: zmod_int)
  also have "\<dots> = 5" by (simp only: five)
  finally have "nat ((int (toordinal today) + 3 + 6) mod 7) = 5" by simp
  with raw_weekday_value [OF assms(2)] show ?thesis by (simp add: day_name_def)
qed

subsection \<open>The example books on given days\<close>

lemma strptime_bob: "strptime ''1-11-1990'' = Inr \<lparr>year = 1990, month = 11, day = 1\<rparr>"
  by (simp add: strptime_defs date_defs)

lemma strptime_eve: "strptime ''02-01-1990'' = Inr \<lparr>year = 1990, month = 1, day = 2\<rparr>"
  by (simp add: strptime_defs date_defs)

lemma strptime_leo: "strptime ''29-02-2000'' = Inr \<lparr>year = 2000, month = 2, day = 29\<rparr>"
  by (simp add: strptime_defs date_defs)

lemma book_two_items: "items book_two = [(''Ann'', ann), (''Bob'', bob)]"
  by (simp add: items_def book_two_eq bob_def)

lemma book_jan_items:
  "items book_jan = [(''Eve'', eve)]"
  by (simp add: items_def eve_def book_jan_def add_record_def Record_init_def Birthday_init_def
      strptime_eve add_phone_def Phone_init_def re_match_phone_def is_digit_def
      AddressBook_init_def)

lemma book_leap_items:
  "items book_leap = [(''Ann'', ann), (''Leo'', leo)]"
  by (simp add: items_def leo_def book_leap_def book_ann_eq add_record_def Record_init_def Birthday_init_def
      strptime_leo add_phone_def Phone_init_def re_match_phone_def is_digit_def)

lemma wd_2025_10_27: "strftime_A \<lparr>year = 2025, month = 10, day = 27\<rparr> = Monday"
  by (simp add: date_defs)
lemma wd_2025_10_29: "strftime_A \<lparr>year = 2025, month = 10, day = 29\<rparr> = Wednesday"
  by (simp add: date_defs)
lemma wd_2025_10_22: "strftime_A \<lparr>year = 2025, month = 10, day = 22\<rparr> = Wednesday"
  by (simp add: date_defs)
lemma wd_2026_10_26: "strftime_A \<lparr>year = 2026, month = 10, day = 26\<rparr> = Monday"
  by (simp add: date_defs)
lemma wd_2025_12_30: "strftime_A \<lparr>year = 2025, month = 12, day = 30\<rparr> = Tuesday"
  by (simp add: date_defs)

lemma ann_day: "record_day t td ann = Inr None"
  by (simp add: record_day_def ann_def)

lemma bob_2025_10_27: "delta_days \<lparr>year = 2025, month = 10, day = 27\<rparr> Monday ''1-11-1990'' = Inr 5"
  by (simp add: strptime_bob delta_days_def birthday_this_year_def date_defs)

lemma bob_2025_10_29: "delta_days \<lparr>year = 2025, month = 10, day = 29\<rparr> Wednesday ''1-11-1990'' = Inr 3"
  by (simp add: strptime_bob delta_days_def birthday_this_year_def date_defs)

lemma bob_2025_10_22: "delta_days \<lparr>year = 2025, month = 10, day = 22\<rparr> Wednesday ''1-11-1990'' = Inr 10"
  by (simp add: strptime_bob delta_days_def birthday_this_year_def date_defs)

lemma bob_2026_10_26: "delta_days \<lparr>year = 2026, month = 10, day = 26\<rparr> Monday ''1-11-1990'' = Inr 6"
  by (simp add: strptime_bob delta_days_def birthday_this_year_def date_defs)

lemma eve_2025_12_30: "delta_days \<lparr>year = 2025, month = 12, day = 30\<rparr> Tuesday ''02-01-1990'' = Inr (- 362)"
  by (simp add: strptime_eve delta_days_def birthday_this_year_def date_defs)

lemma raw_2025_10_27: "raw_weekday \<lparr>year = 2025, month = 10, day = 27\<rparr> 5 = Inr Saturday"
  by (simp add: raw_weekday_def date_defs)
lemma raw_2025_10_29: "raw_weekday \<lparr>year = 2025, month = 10, day = 29\<rparr> 3 = Inr Saturday"
  by (simp add: raw_weekday_def date_defs)
lemma raw_2026_10_26: "raw_weekday \<lparr>year = 2026, month = 10, day = 26\<rparr> 6 = Inr Sunday"
  by (simp add: raw_weekday_def date_defs)

lemma bob_day_2025_10_27:
  "record_day \<lparr>year = 2025, month = 10, day = 27\<rparr> Monday bob = Inr (Some Saturday)"
  by (simp add: record_day_def bob_def bob_2025_10_27 celebration_day_def raw_2025_10_27)

lemma bob_day_2025_10_29:
  "record_day \<lparr>year = 2025, month = 10, day = 29\<rparr> Wednesday bob = Inr (Some Monday)"
  by (simp add: record_day_def bob_def bob_2025_10_29 celebration_day_def raw_2025_10_29)

lemma bob_day_2025_10_22:
  "record_day \<lparr>year = 2025, month = 10, day = 22\<rparr> Wednesday bob = Inr None"
  by (simp add: record_day_def bob_def bob_2025_10_22 celebration_day_def)

lemma bob_day_2026_10_26:
  "record_day \<lparr>year = 2026, month = 10, day = 26\<rparr> Monday bob = Inr None"
  by (simp add: record_day_def bob_def bob_2026_10_26 celebration_day_def raw_2026_10_26)

lemma eve_day_2025_12_30:
  "record_day \<lparr>year = 2025, month = 12, day = 30\<rparr> Tuesday eve = Inr None"
  by (simp add: record_day_def eve_def eve_2025_12_30 celebration_day_def)

lemma leo_day_2025_10_29:
  "record_day \<lparr>year = 2025, month = 10, day = 29\<rparr> Wednesday leo = Inl ValueError"
  by (simp add: record_day_def leo_def delta_days_def strptime_leo birthday_this_year_def
      date_defs)

lemma week_2025_10_27:
  "get_birthdays_per_week \<lparr>year = 2025, month = 10, day = 27\<rparr> book_two = Inr [(Saturday, [''Bob''])]"
  by (simp add: get_birthdays_per_week_def book_two_items wd_2025_10_27 ann_day
      bob_day_2025_10_27)

lemma week_2025_10_29:
  "get_birthdays_per_week \<lparr>year = 2025, month = 10, day = 29\<rparr> book_two = Inr [(Monday, [''Bob''])]"
  by (simp add: get_birthdays_per_week_def book_two_items wd_2025_10_29 ann_day
      bob_day_2025_10_29)

lemma week_2025_10_22:
  "get_birthdays_per_week \<lparr>year = 2025, month = 10, day = 22\<rparr> book_two = Inr []"
  by (simp add: get_birthdays_per_week_def book_two_items wd_2025_10_22 ann_day
      bob_day_2025_10_22)

lemma week_2026_10_26:
  "get_birthdays_per_week \<lparr>year = 2026, month = 10, day = 26\<rparr> book_two = Inr []"
  by (simp add: get_birthdays_per_week_def book_two_items wd_2026_10_26 ann_day
      bob_day_2026_10_26)

lemma week_2025_12_30:
  "get_birthdays_per_week \<lparr>year = 2025, month = 12, day = 30\<rparr> book_jan = Inr []"
  by (simp add: get_birthdays_per_week_def book_jan_items wd_2025_12_30 eve_day_2025_12_30)

lemma week_leap:
  "get_birthdays_per_week \<lparr>year = 2025, month = 10, day = 29\<rparr> book_leap = Inl ValueError"
  by (simp add: get_birthdays_per_week_def book_leap_items wd_2025_10_29 ann_day
      leo_day_2025_10_29)

lemma book_lb_items: "items book_lb = [(''Ann'', ann), (''Leo'', leo), (''Bob'', bob)]"
proof -
  have e: "book_leap = \<lparr>objs = [ann, leo], data = [(''Ann'', 0), (''Leo'', 1)]\<rparr>"
    by (simp add: book_leap_def book_ann_eq add_record_def Record_init_def Birthday_init_def
        strptime_leo add_phone_def Phone_init_def re_match_phone_def is_digit_def leo_def)
  show ?thesis
    by (simp add: e items_def book_lb_def add_record_def Record_init_def Birthday_init_def
        strptime_bob add_phone_def Phone_init_def re_match_phone_def is_digit_def bob_def)
qed

lemma week_lb:
  "get_birthdays_per_week \<lparr>year = 2025, month = 10, day = 29\<rparr> book_lb = Inl ValueError"
  by (simp add: get_birthdays_per_week_def book_lb_items wd_2025_10_29 ann_day
      leo_day_2025_10_29)

lemma wd_2026_12_30: "strftime_A \<lparr>year = 2026, month = 12, day = 30\<rparr> = Wednesday"
  by (simp add: date_defs)

lemma wd_2027_01_02: "strftime_A \<lparr>year = 2027, month = 1, day = 2\<rparr> = Saturday"
  by (simp add: date_defs)

lemma eve_2026_12_30:
  "delta_days \<lparr>year = 2026, month = 12, day = 30\<rparr> Wednesday ''02-01-1990'' = Inr (- 362)"
  by (simp add: strptime_eve delta_days_def birthday_this_year_def date_defs)

lemma eve_day_2026_12_30:
  "record_day \<lparr>year = 2026, month = 12, day = 30\<rparr> Wednesday eve = Inr None"
  by (simp add: record_day_def eve_def eve_2026_12_30 celebration_day_def)

lemma week_2026_12_30:
  "get_birthdays_per_week \<lparr>year = 2026, month = 12, day = 30\<rparr> book_jan = Inr []"
  by (simp add: get_birthdays_per_week_def book_jan_items wd_2026_12_30 eve_day_2026_12_30)

subsection \<open>Which names are filed\<close>

lemma celebration_day_upcoming:
  assumes "celebration_day today td dd = Inr res" and "0 \<le> dd" and "dd < 7"
    and "\<not> (td = Monday \<and> dd = 6)"
  shows "\<exists>wd. res = Some wd"
  using assms by (auto simp: celebration_day_def split: if_splits sum.splits)

text \<open>
  C1, as amended. Let \<open>today\<close> be a date and let the call return a dictionary. For every
  record of the book with a birthday whose day and month, in the year of \<open>today\<close>, fall on
  \<open>today\<close> or on one of the six days after it, the name of the contact is filed under some
  weekday, unless \<open>today\<close> is a Monday and the birthday is six days ahead.
\<close>

theorem upcoming_birthday_filed:
  assumes "get_birthdays_per_week today s = Inr m"
    and "check_date_fields (year today) (month today) (day today)"
    and "(nm, r) \<in> set (items s)" and "birthday r = Some b"
    and "strptime (value_of b) = Inr bd"
    and "replace_year bd (year today) = Inr bty"
    and "0 \<le> sub_days bty today" and "sub_days bty today < 7"
    and "\<not> (strftime_A today = Monday \<and> sub_days bty today = 6)"
  shows "nm \<in> filed m"
proof -
  let ?td = "strftime_A today"
  from assms(6) have y: "year bty = year today"
    and v: "check_date_fields (year bty) (month bty) (day bty)"
    by (auto simp: replace_year_def date_new_def split: if_splits)
  from assms(7) y v assms(2) have "\<not> date_less bty today"
    by (rule sub_days_nonneg_not_less)
  with assms(6) have "birthday_this_year today ?td bd = Inr bty"
    by (simp add: birthday_this_year_def)
  with assms(5) have dd: "delta_days today ?td (value_of b) = Inr (sub_days bty today)"
    by (simp add: delta_days_def)
  from assms(1) [unfolded get_birthdays_per_week_def] assms(3)
  obtain res where res: "record_day today ?td r = Inr res"
    by (rule birthdays_loop_returns)
  with assms(4) dd have "celebration_day today ?td (sub_days bty today) = Inr res"
    by (simp add: record_day_def)
  from celebration_day_upcoming [OF this assms(7,8,9)]
  obtain wd where "res = Some wd" ..
  with res assms(3) birthdays_loop_filed [OF assms(1) [unfolded get_birthdays_per_week_def]]
  show ?thesis by auto
qed

theorem upcoming_birthday_filed_witness:
  "get_birthdays_per_week \<lparr>year = 2025, month = 10, day = 27\<rparr> book_two =
     Inr [(Saturday, [''Bob''])] \<and>
   check_date_fields 2025 10 27 \<and>
   (''Bob'', bob) \<in> set (items book_two) \<and> birthday bob = Some (Field ''1-11-1990'') \<and>
   strptime ''1-11-1990'' = Inr \<lparr>year = 1990, month = 11, day = 1\<rparr> \<and>
   replace_year \<lparr>year = 1990, month = 11, day = 1\<rparr> 2025 =
     Inr \<lparr>year = 2025, month = 11, day = 1\<rparr> \<and>
   sub_days \<lparr>year = 2025, month = 11, day = 1\<rparr> \<lparr>year = 2025, month = 10, day = 27\<rparr> = 5 \<and>
   ''Bob'' \<in> filed [(Saturday, [''Bob''])]"
proof -
  let ?today = "\<lparr>year = 2025, month = 10, day = 27\<rparr>"
  let ?bty = "\<lparr>year = 2025, month = 11, day = 1\<rparr>"
  have c: "check_date_fields (year ?today) (month ?today) (day ?today)"
    by (simp add: date_defs)
  have i: "(''Bob'', bob) \<in> set (items book_two)" by (simp add: book_two_items)
  have b: "birthday bob = Some (Field ''1-11-1990'')" by (simp add: bob_def)
  have p: "strptime (value_of (Field ''1-11-1990'')) = Inr \<lparr>year = 1990, month = 11, day = 1\<rparr>"
    by (simp add: strptime_bob)
  have r: "replace_year \<lparr>year = 1990, month = 11, day = 1\<rparr> (year ?today) = Inr ?bty"
    by (simp add: date_defs)
  have s: "sub_days ?bty ?today = 5" by (simp add: date_defs)
  from s have h1: "0 \<le> sub_days ?bty ?today" and h2: "sub_days ?bty ?today < 7"
    and h3: "\<not> (strftime_A ?today = Monday \<and> sub_days ?bty ?today = 6)"
    by simp_all
  have "''Bob'' \<in> filed [(Saturday, [''Bob''])]"
    by (rule upcoming_birthday_filed [OF week_2025_10_27 c i b p r h1 h2 h3])
  with week_2025_10_27 c i b p r s show ?thesis by simp
qed

text \<open>
  The claim as it is written promises the name for every birthday whose next occurrence is
  within seven days. With \<open>today\<close> on 30 December 2025 a birthday on 2 January is three
  days ahead and nothing is filed; with \<open>today\<close> on Monday 26 October 2026 a birthday on
  1 November is six days ahead and nothing is filed.
\<close>

theorem upcoming_birthday_not_filed:
  "(''Eve'', eve) \<in> set (items book_jan) \<and> birthday eve = Some (Field ''02-01-1990'') \<and>
   strptime ''02-01-1990'' = Inr \<lparr>year = 1990, month = 1, day = 2\<rparr> \<and>
   sub_days \<lparr>year = 2026, month = 1, day = 2\<rparr> \<lparr>year = 2025, month = 12, day = 30\<rparr> = 3 \<and>
   get_birthdays_per_week \<lparr>year = 2025, month = 12, day = 30\<rparr> book_jan = Inr [] \<and>
   (''Bob'', bob) \<in> set (items book_two) \<and> birthday bob = Some (Field ''1-11-1990'') \<and>
   strptime ''1-11-1990'' = Inr \<lparr>year = 1990, month = 11, day = 1\<rparr> \<and>
   strftime_A \<lparr>year = 2026, month = 10, day = 26\<rparr> = Monday \<and>
   sub_days \<lparr>year = 2026, month = 11, day = 1\<rparr> \<lparr>year = 2026, month = 10, day = 26\<rparr> = 6 \<and>
   get_birthdays_per_week \<lparr>year = 2026, month = 10, day = 26\<rparr> book_two = Inr []"
proof -
  have 1: "sub_days \<lparr>year = 2026, month = 1, day = 2\<rparr> \<lparr>year = 2025, month = 12, day = 30\<rparr> = 3"
    by (simp add: date_defs)
  have 2: "sub_days \<lparr>year = 2026, month = 11, day = 1\<rparr> \<lparr>year = 2026, month = 10, day = 26\<rparr> = 6"
    by (simp add: date_defs)
  from 1 2 show ?thesis
    by (simp add: book_jan_items book_two_items eve_def bob_def strptime_eve strptime_bob
        week_2025_12_30 week_2026_10_26 wd_2026_10_26)
qed

text \<open>
  C2, as amended. Let the call return a dictionary, and let \<open>today\<close> be neither a Monday, a
  Saturday nor a Sunday. For every record of the book whose computed \<^verbatim>\<open>delta_days\<close> is at
  least 0 and less than 7 and for which the weekday of \<open>today\<close> plus \<^verbatim>\<open>delta_days\<close> days is
  Saturday or Sunday, the name of the contact is filed under Monday. In particular, when
  \<open>today\<close> is a Wednesday and the birthday, taken in the year of \<open>today\<close>, is three days
  after \<open>today\<close> (the coming Saturday), the name is filed under Monday.
\<close>

theorem weekend_birthday_on_Monday:
  assumes "get_birthdays_per_week today s = Inr m"
    and "(nm, r) \<in> set (items s)" and "birthday r = Some b"
    and "strftime_A today \<notin> {Monday, Saturday, Sunday}"
  shows "(\<forall>dd wd. delta_days today (strftime_A today) (value_of b) = Inr dd \<and> 0 \<le> dd \<and> dd < 7 \<and>
            raw_weekday today dd = Inr wd \<and> wd \<in> {Saturday, Sunday}
            \<longrightarrow> nm \<in> set (bucket m Monday)) \<and>
         (\<forall>bd bty. check_date_fields (year today) (month today) (day today) \<and>
            strftime_A today = Wednesday \<and> strptime (value_of b) = Inr bd \<and>
            replace_year bd (year today) = Inr bty \<and> sub_days bty today = 3
            \<longrightarrow> nm \<in> set (bucket m Monday))"
proof -
  let ?td = "strftime_A today"
  note loop = assms(1) [unfolded get_birthdays_per_week_def]
  have general: "nm \<in> set (bucket m Monday)"
    if dd: "delta_days today ?td (value_of b) = Inr dd" and "0 \<le> dd" and "dd < 7"
      and "raw_weekday today dd = Inr wd" and "wd \<in> {Saturday, Sunday}" for dd wd
  proof -
    from assms(4) that(2-5) have "celebration_day today ?td dd = Inr (Some Monday)"
      by (auto simp: celebration_day_def)
    with assms(3) dd have "record_day today ?td r = Inr (Some Monday)"
      by (simp add: record_day_def)
    with assms(2) birthdays_loop_bucket [OF loop, of Monday] show ?thesis by auto
  qed
  have particular: "nm \<in> set (bucket m Monday)"
    if today: "check_date_fields (year today) (month today) (day today)"
      and wed: "?td = Wednesday" and bd: "strptime (value_of b) = Inr bd"
      and bty: "replace_year bd (year today) = Inr bty" and three: "sub_days bty today = 3"
    for bd bty
  proof -
    from bty have y: "year bty = year today"
      and v: "check_date_fields (year bty) (month bty) (day bty)"
      by (auto simp: replace_year_def date_new_def split: if_splits)
    from three have "0 \<le> sub_days bty today" by simp
    from this y v today have "\<not> date_less bty today" by (rule sub_days_nonneg_not_less)
    with bty have "birthday_this_year today ?td bd = Inr bty"
      by (simp add: birthday_this_year_def)
    with bd three have dd: "delta_days today ?td (value_of b) = Inr 3"
      by (simp add: delta_days_def)
    from loop assms(2) obtain res where res: "record_day today ?td r = Inr res"
      by (rule birthdays_loop_returns)
    with assms(3) dd have "celebration_day today ?td 3 = Inr res"
      by (simp add: record_day_def)
    then obtain wd where raw: "raw_weekday today 3 = Inr wd"
      by (cases "raw_weekday today 3") (auto simp: celebration_day_def)
    from wed raw have "wd = Saturday" by (rule Saturday_after_Wednesday)
    with raw dd show ?thesis by (intro general [of 3 Saturday]) simp_all
  qed
  from general particular show ?thesis by blast
qed

theorem weekend_birthday_on_Monday_witness:
  "get_birthdays_per_week \<lparr>year = 2025, month = 10, day = 29\<rparr> book_two =
     Inr [(Monday, [''Bob''])] \<and>
   (''Bob'', bob) \<in> set (items book_two) \<and> birthday bob = Some (Field ''1-11-1990'') \<and>
   strftime_A \<lparr>year = 2025, month = 10, day = 29\<rparr> = Wednesday \<and>
   delta_days \<lparr>year = 2025, month = 10, day = 29\<rparr> Wednesday ''1-11-1990'' = Inr 3 \<and>
   raw_weekday \<lparr>year = 2025, month = 10, day = 29\<rparr> 3 = Inr Saturday \<and>
   check_date_fields 2025 10 29 \<and>
   strptime ''1-11-1990'' = Inr \<lparr>year = 1990, month = 11, day = 1\<rparr> \<and>
   replace_year \<lparr>year = 1990, month = 11, day = 1\<rparr> 2025 =
     Inr \<lparr>year = 2025, month = 11, day = 1\<rparr> \<and>
   sub_days \<lparr>year = 2025, month = 11, day = 1\<rparr> \<lparr>year = 2025, month = 10, day = 29\<rparr> = 3 \<and>
   ''Bob'' \<in> set (bucket [(Monday, [''Bob''])] Monday)"
proof -
  let ?today = "\<lparr>year = 2025, month = 10, day = 29\<rparr>"
  let ?bd = "\<lparr>year = 1990, month = 11, day = 1\<rparr>"
  let ?bty = "\<lparr>year = 2025, month = 11, day = 1\<rparr>"
  have i: "(''Bob'', bob) \<in> set (items book_two)" by (simp add: book_two_items)
  have b: "birthday bob = Some (Field ''1-11-1990'')" by (simp add: bob_def)
  have w: "strftime_A ?today \<notin> {Monday, Saturday, Sunday}" by (simp add: wd_2025_10_29)
  have dd: "delta_days ?today (strftime_A ?today) (value_of (Field ''1-11-1990'')) = Inr 3"
    by (simp add: wd_2025_10_29 bob_2025_10_29)
  have c: "check_date_fields (year ?today) (month ?today) (day ?today)"
    by (simp add: date_defs)
  have p: "strptime (value_of (Field ''1-11-1990'')) = Inr ?bd" by (simp add: strptime_bob)
  have r: "replace_year ?bd (year ?today) = Inr ?bty" by (simp add: date_defs)
  have s: "sub_days ?bty ?today = 3" by (simp add: date_defs)
  note inst = weekend_birthday_on_Monday [OF week_2025_10_29 i b w]
  from inst dd raw_2025_10_29 have 1: "''Bob'' \<in> set (bucket [(Monday, [''Bob''])] Monday)"
    by (simp add: wd_2025_10_29)
  from inst c wd_2025_10_29 p r s have 2: "''Bob'' \<in> set (bucket [(Monday, [''Bob''])] Monday)"
    by blast
  from week_2025_10_29 i b wd_2025_10_29 bob_2025_10_29 raw_2025_10_29 c p r s 1
  show ?thesis by simp
qed

text \<open>
  The claim as it is written has no condition on the call and none on the year of the coming
  Saturday. On Wednesday 29 October 2025, with a record born on 29 February stored before
  Bob, whose birthday is the coming Saturday, the call raises ValueError and files nothing.
  On Wednesday 30 December 2026 a birthday on 2 January is the coming Saturday, and the call
  returns a dictionary with nothing under Monday.
\<close>

theorem weekend_birthday_not_on_Monday:
  "(''Bob'', bob) \<in> set (items book_lb) \<and> birthday bob = Some (Field ''1-11-1990'') \<and>
   strftime_A \<lparr>year = 2025, month = 10, day = 29\<rparr> = Wednesday \<and>
   delta_days \<lparr>year = 2025, month = 10, day = 29\<rparr> Wednesday ''1-11-1990'' = Inr 3 \<and>
   raw_weekday \<lparr>year = 2025, month = 10, day = 29\<rparr> 3 = Inr Saturday \<and>
   get_birthdays_per_week \<lparr>year = 2025, month = 10, day = 29\<rparr> book_lb = Inl ValueError \<and>
   (''Eve'', eve) \<in> set (items book_jan) \<and> birthday eve = Some (Field ''02-01-1990'') \<and>
   strptime ''02-01-1990'' = Inr \<lparr>year = 1990, month = 1, day = 2\<rparr> \<and>
   strftime_A \<lparr>year = 2026, month = 12, day = 30\<rparr> = Wednesday \<and>
   sub_days \<lparr>year = 2027, month = 1, day = 2\<rparr> \<lparr>year = 2026, month = 12, day = 30\<rparr> = 3 \<and>
   strftime_A \<lparr>year = 2027, month = 1, day = 2\<rparr> = Saturday \<and>
   get_birthdays_per_week \<lparr>year = 2026, month = 12, day = 30\<rparr> book_jan = Inr [] \<and>
   bucket [] Monday = []"
proof -
  have 1: "(''Bob'', bob) \<in> set (items book_lb)" by (simp add: book_lb_items)
  have 2: "birthday bob = Some (Field ''1-11-1990'')" by (simp add: bob_def)
  have 3: "(''Eve'', eve) \<in> set (items book_jan)" by (simp add: book_jan_items)
  have 4: "birthday eve = Some (Field ''02-01-1990'')" by (simp add: eve_def)
  have 5: "sub_days \<lparr>year = 2027, month = 1, day = 2\<rparr> \<lparr>year = 2026, month = 12, day = 30\<rparr> = 3"
    by (simp add: date_defs)
  have 6: "bucket [] Monday = []" by (simp add: bucket_def)
  show ?thesis
    by (intro conjI) (rule 1 2 3 4 5 6 wd_2025_10_29 bob_2025_10_29 raw_2025_10_29 week_lb
        strptime_eve wd_2026_12_30 wd_2027_01_02 week_2026_12_30)+
qed

lemma celebration_day_range:
  "celebration_day today td dd = Inr (Some wd) \<Longrightarrow> - 2 \<le> dd \<and> dd < 7"
  by (auto simp: celebration_day_def split: if_splits)

lemma filed_needs_upcoming:
  assumes "get_birthdays_per_week today s = Inr m"
    and "distinct (map fst (data s))"
    and "(nm, r) \<in> set (items s)" and "nm \<in> filed m"
  shows "\<exists>b dd. birthday r = Some b \<and>
           delta_days today (strftime_A today) (value_of b) = Inr dd \<and> - 2 \<le> dd \<and> dd < 7"
proof -
  from birthdays_loop_filed [OF assms(1) [unfolded get_birthdays_per_week_def]] assms(4)
  obtain r' wd where r': "(nm, r') \<in> set (items s)"
    and d: "record_day today (strftime_A today) r' = Inr (Some wd)"
    by (auto simp: filed_def)
  from assms(2) have "distinct (map fst (items s))" by (simp add: items_keys)
  with r' assms(3) have "r' = r" by (metis eq_key_imp_eq_value)
  with d have d': "record_day today (strftime_A today) r = Inr (Some wd)" by simp
  then obtain b where b: "birthday r = Some b"
    by (cases "birthday r") (auto simp: record_day_def)
  with d' obtain dd where dd: "delta_days today (strftime_A today) (value_of b) = Inr dd"
    and c: "celebration_day today (strftime_A today) dd = Inr (Some wd)"
    by (cases "delta_days today (strftime_A today) (value_of b)") (auto simp: record_day_def)
  from celebration_day_range [OF c] b dd show ?thesis by blast
qed

text \<open>
  C3. Let the call return a dictionary. A record of the book whose name is filed under
  some weekday has a birthday whose computed \<^verbatim>\<open>delta_days\<close> is at least -2 and less than 7;
  and a record whose computed \<^verbatim>\<open>delta_days\<close> is outside that range is filed under no weekday.
  The names of a dictionary are distinct.
\<close>

theorem filed_only_if_upcoming:
  assumes "get_birthdays_per_week today s = Inr m"
    and "distinct (map fst (data s))"
    and "(nm, r) \<in> set (items s)"
  shows "(nm \<in> filed m \<longrightarrow>
           (\<exists>b dd. birthday r = Some b \<and>
              delta_days today (strftime_A today) (value_of b) = Inr dd \<and> - 2 \<le> dd \<and> dd < 7)) \<and>
         (\<forall>b dd. birthday r = Some b \<and>
              delta_days today (strftime_A today) (value_of b) = Inr dd \<and>
              \<not> (- 2 \<le> dd \<and> dd < 7) \<longrightarrow> nm \<notin> filed m)"
proof -
  have a: "\<exists>b dd. birthday r = Some b \<and>
      delta_days today (strftime_A today) (value_of b) = Inr dd \<and> - 2 \<le> dd \<and> dd < 7"
    if "nm \<in> filed m"
    using filed_needs_upcoming [OF assms that] .
  then show ?thesis by fastforce
qed

theorem filed_only_if_upcoming_witness:
  "get_birthdays_per_week \<lparr>year = 2025, month = 10, day = 22\<rparr> book_two = Inr [] \<and>
   get_birthdays_per_week \<lparr>year = 2025, month = 10, day = 29\<rparr> book_two =
     Inr [(Monday, [''Bob''])] \<and>
   distinct (map fst (data book_two)) \<and> (''Bob'', bob) \<in> set (items book_two) \<and>
   birthday bob = Some (Field ''1-11-1990'') \<and>
   delta_days \<lparr>year = 2025, month = 10, day = 22\<rparr>
     (strftime_A \<lparr>year = 2025, month = 10, day = 22\<rparr>) ''1-11-1990'' = Inr 10 \<and>
   ''Bob'' \<notin> filed [] \<and>
   ''Bob'' \<in> filed [(Monday, [''Bob''])] \<and>
   delta_days \<lparr>year = 2025, month = 10, day = 29\<rparr>
     (strftime_A \<lparr>year = 2025, month = 10, day = 29\<rparr>) ''1-11-1990'' = Inr 3"
proof -
  have d: "distinct (map fst (data book_two))" by (simp add: book_two_eq)
  have i: "(''Bob'', bob) \<in> set (items book_two)" by (simp add: book_two_items)
  have b: "birthday bob = Some (Field ''1-11-1990'')" by (simp add: bob_def)
  have d22: "delta_days \<lparr>year = 2025, month = 10, day = 22\<rparr>
     (strftime_A \<lparr>year = 2025, month = 10, day = 22\<rparr>) ''1-11-1990'' = Inr 10"
    by (simp add: wd_2025_10_22 bob_2025_10_22)
  have d29: "delta_days \<lparr>year = 2025, month = 10, day = 29\<rparr>
     (strftime_A \<lparr>year = 2025, month = 10, day = 29\<rparr>) ''1-11-1990'' = Inr 3"
    by (simp add: wd_2025_10_29 bob_2025_10_29)
  from filed_only_if_upcoming [OF week_2025_10_22 d i] b d22
  have out: "''Bob'' \<notin> filed []" by simp
  have f: "''Bob'' \<in> filed [(Monday, [''Bob''])]" by (simp add: filed_def)
  from filed_only_if_upcoming [OF week_2025_10_29 d i] f
  have "\<exists>b dd. birthday bob = Some b \<and>
      delta_days \<lparr>year = 2025, month = 10, day = 29\<rparr>
        (strftime_A \<lparr>year = 2025, month = 10, day = 29\<rparr>) (value_of b) = Inr dd \<and>
      - 2 \<le> dd \<and> dd < 7"
    by blast
  with week_2025_10_22 week_2025_10_29 d i b d22 out f d29 show ?thesis by simp
qed

text \<open>
  C9. When the book holds a record whose birthday is a 29 February and the year of \<open>today\<close>
  is not a leap year, \<^verbatim>\<open>get_birthdays_per_week\<close> raises an exception instead of returning a
  dictionary.
\<close>

theorem feb_29_raises:
  assumes "(nm, r) \<in> set (items s)" and "birthday r = Some b"
    and "strptime (value_of b) = Inr bd" and "month bd = 2" and "day bd = 29"
    and "\<not> is_leap (year today)"
  shows "\<exists>e. get_birthdays_per_week today s = Inl e"
proof -
  from assms(4-6) have "replace_year bd (year today) = Inl ValueError"
    by (simp add: replace_year_def date_new_def check_date_fields_def days_in_month_def
        DAYS_IN_MONTH_def)
  with assms(3) have "delta_days today (strftime_A today) (value_of b) = Inl ValueError"
    by (simp add: delta_days_def birthday_this_year_def)
  with assms(2) have "record_day today (strftime_A today) r = Inl ValueError"
    by (simp add: record_day_def)
  with assms(1) show ?thesis
    unfolding get_birthdays_per_week_def by (rule birthdays_loop_raises)
qed

theorem feb_29_raises_witness:
  "(''Leo'', leo) \<in> set (items book_leap) \<and> birthday leo = Some (Field ''29-02-2000'') \<and>
   strptime ''29-02-2000'' = Inr \<lparr>year = 2000, month = 2, day = 29\<rparr> \<and>
   \<not> is_leap 2025 \<and>
   get_birthdays_per_week \<lparr>year = 2025, month = 10, day = 29\<rparr> book_leap = Inl ValueError"
proof -
  let ?today = "\<lparr>year = 2025, month = 10, day = 29\<rparr>"
  have i: "(''Leo'', leo) \<in> set (items book_leap)" by (simp add: book_leap_items)
  have b: "birthday leo = Some (Field ''29-02-2000'')" by (simp add: leo_def)
  have p: "strptime (value_of (Field ''29-02-2000'')) = Inr \<lparr>year = 2000, month = 2, day = 29\<rparr>"
    by (simp add: strptime_leo)
  have l: "\<not> is_leap (year ?today)" by (simp add: is_leap_def)
  from feb_29_raises [OF i b p _ _ l]
  have "\<exists>e. get_birthdays_per_week ?today book_leap = Inl e" by simp
  with i b p l week_leap show ?thesis by simp
qed

section \<open>The Birthday constructor\<close>

subsection \<open>What the expression of the format matches\<close>

lemma cls_iff: "(a, r) \<in> set (cls cs s) \<longleftrightarrow> (\<exists>c. c \<in> set cs \<and> a = [c] \<and> s = c # r)"
  by (cases s) (auto simp: cls_def)

lemma alt_iff: "(a, r) \<in> set (alt p q s) \<longleftrightarrow> (a, r) \<in> set (p s) \<or> (a, r) \<in> set (q s)"
  by (simp add: alt_def)

lemma seq_iff:
  "(a, r) \<in> set (seq p q s) \<longleftrightarrow>
     (\<exists>a1 a2 r1. (a1, r1) \<in> set (p s) \<and> (a2, r) \<in> set (q r1) \<and> a = a1 @ a2)"
proof
  assume "(a, r) \<in> set (seq p q s)"
  then obtain x where x: "x \<in> set (p s)"
    and m: "(a, r) \<in> set (map (\<lambda>(b, r'). (fst x @ b, r')) (q (snd x)))"
    by (auto simp: seq_def split_def)
  from m obtain b where "(b, r) \<in> set (q (snd x))" and "a = fst x @ b"
    by (auto simp: split_def)
  with x show "\<exists>a1 a2 r1. (a1, r1) \<in> set (p s) \<and> (a2, r) \<in> set (q r1) \<and> a = a1 @ a2"
    by (metis prod.collapse)
next
  assume "\<exists>a1 a2 r1. (a1, r1) \<in> set (p s) \<and> (a2, r) \<in> set (q r1) \<and> a = a1 @ a2"
  then obtain a1 a2 r1 where 1: "(a1, r1) \<in> set (p s)" and 2: "(a2, r) \<in> set (q r1)"
    and 3: "a = a1 @ a2" by blast
  from 2 3 have "(a, r) \<in> set (map (\<lambda>(b, r'). (a1 @ b, r')) (q r1))" by force
  with 1 show "(a, r) \<in> set (seq p q s)"
    by (force simp: seq_def)
qed

lemma group_dash_iff:
  "(a, r) \<in> set (group_dash p s) \<longleftrightarrow> (a, CHR ''-'' # r) \<in> set (p s)"
proof
  assume "(a, r) \<in> set (group_dash p s)"
  then obtain x where x: "x \<in> set (p s)"
    and m: "(a, r) \<in> set (map (\<lambda>(u, r'). (fst x, r')) (cls ''-'' (snd x)))"
    by (auto simp: group_dash_def split_def)
  from m obtain u where "(u, r) \<in> set (cls ''-'' (snd x))" and "a = fst x"
    by (auto simp: split_def)
  then have "snd x = CHR ''-'' # r" and "a = fst x" by (auto simp: cls_iff)
  with x show "(a, CHR ''-'' # r) \<in> set (p s)" by (metis prod.collapse)
next
  assume h: "(a, CHR ''-'' # r) \<in> set (p s)"
  have "([CHR ''-''], r) \<in> set (cls ''-'' (CHR ''-'' # r))" by (simp add: cls_iff)
  then have "(a, r) \<in> set (map (\<lambda>(u, r'). (a, r')) (cls ''-'' (CHR ''-'' # r)))" by force
  with h show "(a, r) \<in> set (group_dash p s)"
    by (force simp: group_dash_def)
qed

lemma seq2_iff:
  "(a, r) \<in> set (seq (cls xs) (cls ys) s) \<longleftrightarrow>
     (\<exists>c1 c2. c1 \<in> set xs \<and> c2 \<in> set ys \<and> a = [c1, c2] \<and> s = c1 # c2 # r)"
  unfolding seq_iff cls_iff by auto

lemma re_d_sound:
  assumes "(a, r) \<in> set (re_d s)"
  shows "s = a @ r \<and> day_text a"
proof -
  from assms consider
      (a) "(a, r) \<in> set (seq (cls ''3'') (cls ''01'') s)"
    | (b) "(a, r) \<in> set (seq (cls ''12'') (cls ''0123456789'') s)"
    | (c) "(a, r) \<in> set (seq (cls ''0'') (cls ''123456789'') s)"
    | (d) "(a, r) \<in> set (cls ''123456789'' s)"
    | (e) "(a, r) \<in> set (seq (cls '' '') (cls ''123456789'') s)"
    unfolding re_d_def alt_iff by blast
  then show ?thesis
  proof cases
    case a
    then obtain c1 c2 where "c1 \<in> set ''3''" "c2 \<in> set ''01''" "a = [c1, c2]" "s = c1 # c2 # r"
      unfolding seq2_iff by blast
    then show ?thesis by (simp add: day_text_def)
  next
    case b
    then obtain c1 c2 where "c1 \<in> set ''12''" "is_digit c2" "a = [c1, c2]" "s = c1 # c2 # r"
      unfolding seq2_iff is_digit_def by blast
    then show ?thesis by (simp add: day_text_def)
  next
    case c
    then obtain c1 c2 where "c1 \<in> set ''0''" "nonzero_digit c2" "a = [c1, c2]" "s = c1 # c2 # r"
      unfolding seq2_iff nonzero_digit_def by blast
    then show ?thesis by (simp add: day_text_def)
  next
    case d
    then obtain c where "nonzero_digit c" "a = [c]" "s = c # r"
      unfolding cls_iff nonzero_digit_def by blast
    then show ?thesis by (simp add: day_text_def)
  next
    case e
    then obtain c1 c2 where "c1 \<in> set '' ''" "nonzero_digit c2" "a = [c1, c2]" "s = c1 # c2 # r"
      unfolding seq2_iff nonzero_digit_def by blast
    then show ?thesis by (simp add: day_text_def)
  qed
qed

lemma re_m_sound:
  assumes "(a, r) \<in> set (re_m s)"
  shows "s = a @ r \<and> month_text a"
proof -
  from assms consider
      (a) "(a, r) \<in> set (seq (cls ''1'') (cls ''012'') s)"
    | (b) "(a, r) \<in> set (seq (cls ''0'') (cls ''123456789'') s)"
    | (c) "(a, r) \<in> set (cls ''123456789'' s)"
    unfolding re_m_def alt_iff by blast
  then show ?thesis
  proof cases
    case a
    then obtain c1 c2 where "c1 \<in> set ''1''" "c2 \<in> set ''012''" "a = [c1, c2]" "s = c1 # c2 # r"
      unfolding seq2_iff by blast
    then show ?thesis by (simp add: month_text_def)
  next
    case b
    then obtain c1 c2 where "c1 \<in> set ''0''" "nonzero_digit c2" "a = [c1, c2]" "s = c1 # c2 # r"
      unfolding seq2_iff nonzero_digit_def by blast
    then show ?thesis by (simp add: month_text_def)
  next
    case c
    then obtain c where "nonzero_digit c" "a = [c]" "s = c # r"
      unfolding cls_iff nonzero_digit_def by blast
    then show ?thesis by (simp add: month_text_def)
  qed
qed

lemma re_Y_sound:
  assumes "(a, r) \<in> set (re_Y s)"
  shows "s = a @ r \<and> year_text a"
proof -
  from assms obtain a1 a2 r1 where 1: "(a1, r1) \<in> set (cls ''0123456789'' s)"
    and 2: "(a2, r) \<in> set (seq (cls ''0123456789'')
              (seq (cls ''0123456789'') (cls ''0123456789'')) r1)" and 3: "a = a1 @ a2"
    unfolding re_Y_def seq_iff [of a r "cls ''0123456789''"] by blast
  from 2 obtain b1 b2 r2 where 4: "(b1, r2) \<in> set (cls ''0123456789'' r1)"
    and 5: "(b2, r) \<in> set (seq (cls ''0123456789'') (cls ''0123456789'') r2)"
    and 6: "a2 = b1 @ b2"
    unfolding seq_iff [of a2 r "cls ''0123456789''"] by blast
  from 1 obtain c1 where c1: "is_digit c1" "a1 = [c1]" "s = c1 # r1"
    unfolding cls_iff is_digit_def by blast
  from 4 obtain c2 where c2: "is_digit c2" "b1 = [c2]" "r1 = c2 # r2"
    unfolding cls_iff is_digit_def by blast
  from 5 obtain c3 c4 where c3: "is_digit c3" "is_digit c4" "b2 = [c3, c4]" "r2 = c3 # c4 # r"
    unfolding seq2_iff is_digit_def by blast
  from 3 6 c1 c2 c3 show ?thesis by (simp add: year_text_def)
qed

lemma format_regex_sound:
  assumes "(d, m, y, rest) \<in> set (format_regex s)"
  shows "s = d @ ''-'' @ m @ ''-'' @ y @ rest \<and> day_text d \<and> month_text m \<and> year_text y"
proof -
  from assms obtain x1 where x1: "x1 \<in> set (group_dash re_d s)"
    and i1: "(d, m, y, rest) \<in> set (concat (map (\<lambda>(m, r2).
         map (\<lambda>(y, r3). (fst x1, m, y, r3)) (re_Y r2)) (group_dash re_m (snd x1))))"
    by (auto simp: format_regex_def split_def)
  from i1 obtain x2 where x2: "x2 \<in> set (group_dash re_m (snd x1))"
    and i2: "(d, m, y, rest) \<in> set (map (\<lambda>(y, r3). (fst x1, fst x2, y, r3)) (re_Y (snd x2)))"
    by (auto simp: split_def)
  from i2 have y: "(y, rest) \<in> set (re_Y (snd x2))" and dm: "d = fst x1" "m = fst x2"
    by (auto simp: split_def)
  from x1 dm have "(d, CHR ''-'' # snd x1) \<in> set (re_d s)"
    by (metis group_dash_iff prod.collapse)
  then have 1: "s = d @ CHR ''-'' # snd x1 \<and> day_text d" by (rule re_d_sound)
  from x2 dm have "(m, CHR ''-'' # snd x2) \<in> set (re_m (snd x1))"
    by (metis group_dash_iff prod.collapse)
  then have 2: "snd x1 = m @ CHR ''-'' # snd x2 \<and> month_text m" by (rule re_m_sound)
  from y have 3: "snd x2 = y @ rest \<and> year_text y" by (rule re_Y_sound)
  from 1 2 3 show ?thesis by simp
qed

lemma digit_not_dash: "is_digit c \<Longrightarrow> c \<noteq> CHR ''-''"
  by (auto simp: is_digit_def)

lemma nonzero_is_digit: "nonzero_digit c \<Longrightarrow> is_digit c"
  by (auto simp: is_digit_def nonzero_digit_def)

lemma seq2_eval:
  "seq (cls xs) (cls ys) (c1 # c2 # r) =
     (if c1 \<in> set xs \<and> c2 \<in> set ys then [([c1, c2], r)] else [])"
  by (simp add: seq_def cls_def)

lemma group_dash_alt: "group_dash (alt p q) s = group_dash p s @ group_dash q s"
  by (simp add: group_dash_def alt_def)

lemma group_dash_cls:
  "group_dash (cls xs) (c # c' # r) = (if c \<in> set xs \<and> c' = CHR ''-'' then [([c], r)] else [])"
  by (simp add: group_dash_def cls_def)

lemma group_dash_seq2:
  "group_dash (seq (cls xs) (cls ys)) (c1 # c2 # r) =
     (if c1 \<in> set xs \<and> c2 \<in> set ys \<and> (\<exists>r'. r = CHR ''-'' # r') then [([c1, c2], tl r)] else [])"
  by (cases r) (simp_all add: group_dash_def seq2_eval cls_def)

lemma group_dash_re_d1:
  assumes "nonzero_digit c"
  shows "group_dash re_d (c # CHR ''-'' # t) = [([c], t)]"
proof -
  have "CHR ''-'' \<notin> set ''01''" "CHR ''-'' \<notin> set ''0123456789''" "CHR ''-'' \<notin> set ''123456789''"
    by simp_all
  with assms show ?thesis
    unfolding re_d_def group_dash_alt group_dash_cls group_dash_seq2 nonzero_digit_def
    by simp
qed

lemma group_dash_re_d2:
  assumes "(c1 = CHR ''0'' \<and> nonzero_digit c2) \<or> (c1 = CHR '' '' \<and> nonzero_digit c2) \<or>
          (c1 \<in> set ''12'' \<and> is_digit c2) \<or> (c1 = CHR ''3'' \<and> c2 \<in> set ''01'')"
  shows "group_dash re_d (c1 # c2 # CHR ''-'' # t) = [([c1, c2], t)]"
proof -
  have two: "c1 = CHR ''1'' \<or> c1 = CHR ''2''" if "c1 \<in> set ''12''"
    using that by simp
  have dash: "c2 \<noteq> CHR ''-''" if "c2 \<in> set ''0123456789''"
    using that by auto
  have sub: "c2 \<in> set ''0123456789''" if "c2 \<in> set ''123456789'' \<or> c2 \<in> set ''01''"
    using that by auto
  from assms sub have "c2 \<in> set ''0123456789''"
    unfolding is_digit_def nonzero_digit_def by blast
  then have d: "c2 \<noteq> CHR ''-''" by (rule dash)
  from assms two consider (z) "c1 = CHR ''0''" "c2 \<in> set ''123456789''"
    | (s) "c1 = CHR '' ''" "c2 \<in> set ''123456789''"
    | (t1) "c1 = CHR ''1''" "c2 \<in> set ''0123456789''"
    | (t2) "c1 = CHR ''2''" "c2 \<in> set ''0123456789''"
    | (th) "c1 = CHR ''3''" "c2 \<in> set ''01''"
    unfolding is_digit_def nonzero_digit_def by blast
  then show ?thesis
  proof cases
    case z
    with d show ?thesis
      unfolding re_d_def group_dash_alt group_dash_cls group_dash_seq2 by simp
  next
    case s
    with d show ?thesis
      unfolding re_d_def group_dash_alt group_dash_cls group_dash_seq2 by simp
  next
    case t1
    with d show ?thesis
      unfolding re_d_def group_dash_alt group_dash_cls group_dash_seq2 by simp
  next
    case t2
    with d show ?thesis
      unfolding re_d_def group_dash_alt group_dash_cls group_dash_seq2 by simp
  next
    case th
    with d show ?thesis
      unfolding re_d_def group_dash_alt group_dash_cls group_dash_seq2 by simp
  qed
qed

lemma group_dash_re_d:
  assumes "day_text d"
  shows "group_dash re_d (d @ CHR ''-'' # t) = [(d, t)]"
proof -
  from assms consider (one) c where "d = [c]" "nonzero_digit c"
    | (two) c1 c2 where "d = [c1, c2]"
        "(c1 = CHR ''0'' \<and> nonzero_digit c2) \<or> (c1 = CHR '' '' \<and> nonzero_digit c2) \<or>
          (c1 \<in> set ''12'' \<and> is_digit c2) \<or> (c1 = CHR ''3'' \<and> c2 \<in> set ''01'')"
    unfolding day_text_def by (auto split: list.splits)
  then show ?thesis
  proof cases
    case one
    then show ?thesis by (simp add: group_dash_re_d1)
  next
    case two
    then show ?thesis by (simp only: group_dash_re_d2 append_Cons append_Nil)
  qed
qed

lemma group_dash_re_m:
  assumes "month_text m"
  shows "group_dash re_m (m @ CHR ''-'' # t) = [(m, t)]"
proof -
  from assms consider (one) c where "m = [c]" "c \<in> set ''123456789''"
    | (z) c2 where "m = [CHR ''0'', c2]" "c2 \<in> set ''123456789''"
    | (t) c2 where "m = [CHR ''1'', c2]" "c2 \<in> set ''012''"
    unfolding month_text_def nonzero_digit_def by (auto split: list.splits)
  then show ?thesis
  proof cases
    case one
    have "CHR ''-'' \<notin> set ''012''" "CHR ''-'' \<notin> set ''123456789''" by simp_all
    with one show ?thesis
      by (simp add: re_m_def group_dash_alt group_dash_cls group_dash_seq2)
  next
    case z
    then have "c2 \<noteq> CHR ''-''" by auto
    with z show ?thesis
      by (simp add: re_m_def group_dash_alt group_dash_cls group_dash_seq2)
  next
    case t
    then have "c2 \<noteq> CHR ''-''" by auto
    with t show ?thesis
      by (simp add: re_m_def group_dash_alt group_dash_cls group_dash_seq2)
  qed
qed

lemma seq_cls_eval:
  "seq (cls xs) q (c # r) = (if c \<in> set xs then map (\<lambda>(b, r'). (c # b, r')) (q r) else [])"
  by (simp add: seq_def cls_def)

lemma re_Y_complete:
  assumes "year_text y"
  shows "re_Y (y @ t) = [(y, t)]"
proof -
  from assms obtain c1 c2 c3 c4 where y: "y = [c1, c2, c3, c4]"
    and d: "is_digit c1" "is_digit c2" "is_digit c3" "is_digit c4"
    unfolding year_text_def
    by (cases y; cases "tl y"; cases "tl (tl y)"; cases "tl (tl (tl y))") auto
  from d have "c1 \<in> set ''0123456789''" "c2 \<in> set ''0123456789''" "c3 \<in> set ''0123456789''"
    "c4 \<in> set ''0123456789''" by (simp_all only: is_digit_def)
  then show ?thesis
    unfolding y re_Y_def by (simp add: seq_cls_eval cls_def)
qed

lemma format_regex_complete:
  assumes "day_text d" and "month_text m" and "year_text y"
  shows "format_regex (d @ ''-'' @ m @ ''-'' @ y) = [(d, m, y, [])]"
proof -
  from re_Y_complete [OF assms(3), of "[]"] have "re_Y y = [(y, [])]" by simp
  then show ?thesis
    by (simp add: format_regex_def group_dash_re_d [OF assms(1)] group_dash_re_m [OF assms(2)])
qed

lemma strptime_iff:
  "strptime raw = Inr dt \<longleftrightarrow>
     (\<exists>d m y. raw = d @ ''-'' @ m @ ''-'' @ y \<and> day_text d \<and> month_text m \<and> year_text y \<and>
        date_new (py_int y) (py_int m) (py_int d) = Inr dt)"
proof
  assume a: "strptime raw = Inr dt"
  then obtain d m y rest xs where f: "format_regex raw = (d, m, y, rest) # xs"
    by (cases "format_regex raw") (auto simp: strptime_def)
  with a have r: "rest = []" and n: "date_new (py_int y) (py_int m) (py_int d) = Inr dt"
    by (auto simp: strptime_def split: if_splits)
  from f have "(d, m, y, rest) \<in> set (format_regex raw)" by simp
  from format_regex_sound [OF this] r n
  show "\<exists>d m y. raw = d @ ''-'' @ m @ ''-'' @ y \<and> day_text d \<and> month_text m \<and> year_text y \<and>
        date_new (py_int y) (py_int m) (py_int d) = Inr dt" by auto
next
  assume "\<exists>d m y. raw = d @ ''-'' @ m @ ''-'' @ y \<and> day_text d \<and> month_text m \<and> year_text y \<and>
        date_new (py_int y) (py_int m) (py_int d) = Inr dt"
  then obtain d m y where raw: "raw = d @ ''-'' @ m @ ''-'' @ y" and t: "day_text d" "month_text m"
    "year_text y" and n: "date_new (py_int y) (py_int m) (py_int d) = Inr dt" by blast
  from format_regex_complete [OF t] raw n show "strptime raw = Inr dt"
    by (simp add: strptime_def)
qed

subsection \<open>Accepted and rejected strings\<close>

text \<open>
  C7, as amended. For every string of characters with code points below 256 (the strings of
  this model, whose only decimal digits are \<^verbatim>\<open>0\<close> to \<^verbatim>\<open>9\<close>): the Birthday constructor accepts
  the string if and only if it is a day, a hyphen, a month, a hyphen and a year, where the
  day is 1 to 9 written as one digit or after a zero or a space, or 10 to 31, the month is
  1 to 9 written as one digit or after a zero, or 10 to 12, the year is four digits, and the
  three numbers are a date of the calendar (year 1 to 9999, day within the month); it then
  stores the string as it is. Every other such string raises ValueError. Strings with a
  character outside that range are not covered by the statement.
\<close>

theorem Birthday_init_accepts:
  "Birthday_init raw =
     (if \<exists>d m y. raw = d @ ''-'' @ m @ ''-'' @ y \<and> day_text d \<and> month_text m \<and> year_text y \<and>
           check_date_fields (py_int y) (py_int m) (py_int d)
      then Inr (Field raw) else Inl ValueError)"
proof (cases "strptime raw")
  case (Inl e)
  have "\<not> (\<exists>d m y. raw = d @ ''-'' @ m @ ''-'' @ y \<and> day_text d \<and> month_text m \<and>
        year_text y \<and> check_date_fields (py_int y) (py_int m) (py_int d))"
  proof
    assume "\<exists>d m y. raw = d @ ''-'' @ m @ ''-'' @ y \<and> day_text d \<and> month_text m \<and>
        year_text y \<and> check_date_fields (py_int y) (py_int m) (py_int d)"
    then obtain d m y where "raw = d @ ''-'' @ m @ ''-'' @ y" "day_text d" "month_text m"
      "year_text y" "date_new (py_int y) (py_int m) (py_int d) =
         Inr \<lparr>year = py_int y, month = py_int m, day = py_int d\<rparr>"
      by (auto simp: date_new_def)
    then have "strptime raw = Inr \<lparr>year = py_int y, month = py_int m, day = py_int d\<rparr>"
      unfolding strptime_iff by blast
    with Inl show False by simp
  qed
  with Inl show ?thesis by (simp add: Birthday_init_def)
next
  case (Inr dt)
  then obtain d m y where "raw = d @ ''-'' @ m @ ''-'' @ y" "day_text d" "month_text m"
    "year_text y" "date_new (py_int y) (py_int m) (py_int d) = Inr dt"
    unfolding strptime_iff by blast
  moreover from this have "check_date_fields (py_int y) (py_int m) (py_int d)"
    by (auto simp: date_new_def split: if_splits)
  ultimately have "\<exists>d m y. raw = d @ ''-'' @ m @ ''-'' @ y \<and> day_text d \<and> month_text m \<and>
        year_text y \<and> check_date_fields (py_int y) (py_int m) (py_int d)" by blast
  with Inr show ?thesis by (simp add: Birthday_init_def)
qed

text \<open>
  The claim as it is written requires two digits for the day and the month. The
  constructor accepts \<^verbatim>\<open>1-3-1990\<close>, which is not of the pattern DD-MM-YYYY.
\<close>

theorem Birthday_init_unpadded:
  "Birthday_init ''1-3-1990'' = Inr (Field ''1-3-1990'') \<and> \<not> dd_mm_yyyy ''1-3-1990''"
proof -
  have "strptime ''1-3-1990'' = Inr \<lparr>year = 1990, month = 3, day = 1\<rparr>"
    by (simp add: strptime_defs date_defs)
  then show ?thesis by (simp add: Birthday_init_def dd_mm_yyyy_def)
qed

lemma Birthday_init_examples:
  "Birthday_init ''24-03-1990'' = Inr (Field ''24-03-1990'')"
  "Birthday_init ''31-02-2000'' = Inl ValueError"
  "Birthday_init ''31-04-2001'' = Inl ValueError"
  "Birthday_init ''01-01-0000'' = Inl ValueError"
  "Birthday_init ''24-03-1990 '' = Inl ValueError"
  "Birthday_init ''24/03/1990'' = Inl ValueError"
  by (simp_all add: Birthday_init_def strptime_defs date_defs)

text \<open>Every string of the pattern DD-MM-YYYY that is a date of the calendar is accepted.\<close>

lemma digit_cases:
  assumes "is_digit c"
  obtains "c = CHR ''0''" | "c = CHR ''1''" | "c = CHR ''2''" | "c = CHR ''3''" | "c = CHR ''4''"
    | "c = CHR ''5''" | "c = CHR ''6''" | "c = CHR ''7''" | "c = CHR ''8''" | "c = CHR ''9''"
  using assms unfolding is_digit_def by auto

lemma two_digit_day:
  assumes "is_digit c1" and "is_digit c2" and "1 \<le> py_int [c1, c2]" and "py_int [c1, c2] \<le> 31"
  shows "day_text [c1, c2]"
  using assms(1)
proof (cases rule: digit_cases)
  case 1
  with assms(2,3) show ?thesis
    by (cases rule: digit_cases [OF assms(2)])
      (simp_all add: py_int_def day_text_def nonzero_digit_def)
next
  case 2
  with assms(2) show ?thesis by (simp add: day_text_def)
next
  case 3
  with assms(2) show ?thesis by (simp add: day_text_def)
next
  case 4
  with assms(2,4) show ?thesis
    by (cases rule: digit_cases [OF assms(2)])
      (simp_all add: py_int_def day_text_def nonzero_digit_def)
qed (use assms(2,4) in \<open>auto simp: py_int_def elim: digit_cases\<close>)

lemma two_digit_month:
  assumes "is_digit c1" and "is_digit c2" and "1 \<le> py_int [c1, c2]" and "py_int [c1, c2] \<le> 12"
  shows "month_text [c1, c2]"
  using assms(1)
proof (cases rule: digit_cases)
  case 1
  with assms(2,3) show ?thesis
    by (cases rule: digit_cases [OF assms(2)])
      (simp_all add: py_int_def month_text_def nonzero_digit_def)
next
  case 2
  with assms(2,4) show ?thesis
    by (cases rule: digit_cases [OF assms(2)])
      (simp_all add: py_int_def month_text_def nonzero_digit_def)
qed (use assms(2,4) in \<open>auto simp: py_int_def elim: digit_cases\<close>)

lemma days_in_month_le: "days_in_month y m \<le> 31" if "1 \<le> m" "m \<le> 12"
proof -
  from that have "m = 1 \<or> m = 2 \<or> m = 3 \<or> m = 4 \<or> m = 5 \<or> m = 6 \<or> m = 7 \<or> m = 8 \<or>
      m = 9 \<or> m = 10 \<or> m = 11 \<or> m = 12" by arith
  then show ?thesis
    by (elim disjE) (simp_all add: days_in_month_def DAYS_IN_MONTH_def)
qed

lemma dd_mm_yyyy_accepted:
  assumes "dd_mm_yyyy s"
    and "check_date_fields (py_int (drop 6 s)) (py_int (take 2 (drop 3 s))) (py_int (take 2 s))"
  shows "Birthday_init s = Inr (Field s)"
proof -
  from assms(1) have "length s = 10" by (simp add: dd_mm_yyyy_def)
  then obtain d1 d2 h1 m1 m2 h2 y1 y2 y3 y4 where s: "s = [d1, d2, h1, m1, m2, h2, y1, y2, y3, y4]"
    by (auto simp: eval_nat_numeral length_Suc_conv)
  let ?d = "[d1, d2]" and ?m = "[m1, m2]" and ?y = "[y1, y2, y3, y4]"
  from assms(1) s have dig: "is_digit d1" "is_digit d2" "is_digit m1" "is_digit m2"
    "list_all is_digit ?y" and h: "h1 = CHR ''-''" "h2 = CHR ''-''"
    by (simp_all add: dd_mm_yyyy_def)
  from assms(2) s have c: "check_date_fields (py_int ?y) (py_int ?m) (py_int ?d)" by simp
  then have cm: "1 \<le> py_int ?m" "py_int ?m \<le> 12" and cd: "1 \<le> py_int ?d"
    "py_int ?d \<le> days_in_month (py_int ?y) (py_int ?m)"
    by (simp_all only: check_date_fields_def)
  from cd(2) days_in_month_le [OF cm, of "py_int ?y"] have "py_int ?d \<le> 31" by simp
  with dig(1,2) cd(1) have 1: "day_text ?d" by (rule two_digit_day)
  from dig(3,4) cm have 2: "month_text ?m" by (rule two_digit_month)
  from dig(5) have 3: "year_text ?y" by (simp add: year_text_def)
  from s h have parts: "s = ?d @ ''-'' @ ?m @ ''-'' @ ?y" by simp
  from c have "date_new (py_int ?y) (py_int ?m) (py_int ?d) =
      Inr \<lparr>year = py_int ?y, month = py_int ?m, day = py_int ?d\<rparr>"
    by (simp only: date_new_def if_True)
  with parts 1 2 3 have "strptime s = Inr \<lparr>year = py_int ?y, month = py_int ?m, day = py_int ?d\<rparr>"
    unfolding strptime_iff by blast
  then show ?thesis by (simp add: Birthday_init_def)
qed

end
